theory Spec2Isabelle
  imports Main "HOL-Library.Word"
begin

section \<open>The BYS record scanner of \<open>yuwell_analyzer.py\<close>\<close>

text \<open>
  The development embeds \<open>parse_bys_file\<close> (lines 14 to 112 of the source): the scan of
  the file content for the magic marker and the decoding of each 30-byte window. Reading the
  file, printing and the optional CSV output are left out; the model starts from the bytes
  \<open>content\<close> that \<open>f.read()\<close> returns.
\<close>

subsection \<open>Data\<close>

type_synonym byte = "8 word"

text \<open>The exceptions the parsing code can meet.\<close>

datatype py_error = StructError | ValueError | IndexError

text \<open>
  The dictionary built at lines 81 to 92, with its ten fixed keys. \<open>Offset\<close> and
  \<open>Spacer\<close> are hexadecimal strings, the two times are either the rendered timestamp or
  the string \<open>Invalid Date\<close>.
\<close>

record bys_record =
  Offset :: string
  Start_Time :: string
  End_Time :: string
  Duration_min :: nat
  Pressure_Raw :: nat
  Val1 :: nat
  Val2 :: nat
  Val3 :: nat
  Val4 :: nat
  Spacer :: string

text \<open>What \<open>datetime.strptime\<close> returns: the six components of a \<open>datetime\<close>.\<close>

record datetime =
  year :: nat
  month :: nat
  day :: nat
  hour :: nat
  minute :: nat
  second :: nat

subsection \<open>Bytes: marker, slices, search\<close>

definition magic :: "byte list" where
  "magic = [0x28, 0x46, 0x96, 0x28]"

text \<open>Python's \<open>xs[a:b]\<close> for \<open>0 \<le> a \<le> b\<close>; like Python it clamps at the end of the list.\<close>

definition slice :: "'a list \<Rightarrow> nat \<Rightarrow> nat \<Rightarrow> 'a list" where
  "slice xs a b = take (b - a) (drop a xs)"

text \<open>
  \<open>content.find(sub, start)\<close> for \<open>start \<ge> 0\<close>: the lowest index \<open>i \<ge> start\<close> at which
  \<open>sub\<close> occurs in \<open>content\<close>. Python's result \<open>-1\<close> is \<open>None\<close> here. \<open>find_at sub xs i\<close>
  searches the remaining bytes \<open>xs\<close>, which start at index \<open>i\<close> of the buffer.
\<close>

fun find_at :: "byte list \<Rightarrow> byte list \<Rightarrow> nat \<Rightarrow> nat option" where
  "find_at sub [] i = (if sub = [] then Some i else None)"
| "find_at sub (x # xs) i =
     (if take (length sub) (x # xs) = sub then Some i else find_at sub xs (Suc i))"

definition bytes_find :: "byte list \<Rightarrow> byte list \<Rightarrow> nat \<Rightarrow> nat option" where
  "bytes_find content sub start =
     (if length content < start then None else find_at sub (drop start content) start)"

subsection \<open>Number formatting\<close>

definition digit_char :: "nat \<Rightarrow> char" where
  "digit_char d = char_of (48 + d)"

text \<open>The decimal digits of a non-negative integer, as \<open>str(n)\<close>.\<close>

fun str_dec :: "nat \<Rightarrow> string" where
  "str_dec n = (if n < 10 then [digit_char n] else str_dec (n div 10) @ [digit_char (n mod 10)])"

declare str_dec.simps [simp del]

text \<open>Zero padding on the left up to a minimal width, as the \<open>0w\<close> of a format spec.\<close>

definition zfill :: "nat \<Rightarrow> string \<Rightarrow> string" where
  "zfill w s = replicate (w - length s) (CHR ''0'') @ s"

text \<open>The format spec \<open>02d\<close>.\<close>

definition fmt_02d :: "nat \<Rightarrow> string" where
  "fmt_02d n = zfill 2 (str_dec n)"

definition hex_char :: "nat \<Rightarrow> char" where
  "hex_char d = (if d < 10 then char_of (48 + d) else char_of (55 + d))"

text \<open>The format spec \<open>X\<close>: upper-case hexadecimal digits.\<close>

fun str_hex :: "nat \<Rightarrow> string" where
  "str_hex n = (if n < 16 then [hex_char n] else str_hex (n div 16) @ [hex_char (n mod 16)])"

declare str_hex.simps [simp del]

text \<open>Line 82: \<open>f"0x{idx:X}"\<close>; line 91: \<open>f"0x{spacer:04X}"\<close>.\<close>

definition fmt_offset :: "nat \<Rightarrow> string" where
  "fmt_offset idx = ''0x'' @ str_hex idx"

definition fmt_spacer :: "nat \<Rightarrow> string" where
  "fmt_spacer spacer = ''0x'' @ zfill 4 (str_hex spacer)"

text \<open>
  Lines 58 and 67: the f-string that renders the six timestamp bytes. Indexing a slice that
  is shorter than six bytes raises \<open>IndexError\<close>.
\<close>

definition format_ts :: "byte list \<Rightarrow> py_error + string" where
  "format_ts ts_raw =
     (if length ts_raw < 6 then Inl IndexError
      else Inr (''20'' @ fmt_02d (unat (ts_raw ! 0)) @ ''-'' @ fmt_02d (unat (ts_raw ! 1))
                @ ''-'' @ fmt_02d (unat (ts_raw ! 2)) @ '' '' @ fmt_02d (unat (ts_raw ! 3))
                @ '':'' @ fmt_02d (unat (ts_raw ! 4)) @ '':'' @ fmt_02d (unat (ts_raw ! 5))))"

subsection \<open>The library call \<open>datetime.strptime(s, '%Y-%m-%d %H:%M:%S')\<close>\<close>

text \<open>
  The standard library turns the format into the regular expression
  \<^verbatim>\<open>(?P<Y>\d\d\d\d)-(?P<m>1[0-2]|0[1-9]|[1-9])-(?P<d>3[0-1]|[1-2]\d|0[1-9]|[1-9]| [1-9])\s+(?P<H>2[0-3]|[0-1]\d|\d):(?P<M>[0-5]\d|\d):(?P<S>6[0-1]|[0-5]\d|\d)\<close>,
  matches it at the start of the string, rejects the string when characters remain after
  the match, and builds a date and a \<open>datetime\<close> from the six numbers, both of which check
  their ranges. Every failure is a \<open>ValueError\<close>.

  A piece of the expression is modelled as the list of its possible matches on a string, in
  the order in which a backtracking matcher tries them: each match is the number read and
  the rest of the string. Sequencing is \<open>List.bind\<close>, and the match that the matcher
  reports is the first element of the resulting list.
\<close>

definition in_class :: "char \<Rightarrow> char \<Rightarrow> char \<Rightarrow> bool" where
  "in_class lo hi c = ((of_char lo :: nat) \<le> of_char c \<and> (of_char c :: nat) \<le> of_char hi)"

definition digit_val :: "char \<Rightarrow> nat" where
  "digit_val c = of_char c - 48"

definition int_of_digits :: "string \<Rightarrow> nat" where
  "int_of_digits s = foldl (\<lambda>a c. 10 * a + digit_val c) 0 s"

text \<open>One character of a class, two characters of two classes, four digits.\<close>

fun cls1 :: "char \<Rightarrow> char \<Rightarrow> string \<Rightarrow> (nat \<times> string) list" where
  "cls1 l h (a # rest) = (if in_class l h a then [(int_of_digits [a], rest)] else [])"
| "cls1 l h [] = []"

fun cls2 :: "char \<Rightarrow> char \<Rightarrow> char \<Rightarrow> char \<Rightarrow> string \<Rightarrow> (nat \<times> string) list" where
  "cls2 l1 h1 l2 h2 (a # b # rest) =
     (if in_class l1 h1 a \<and> in_class l2 h2 b then [(int_of_digits [a, b], rest)] else [])"
| "cls2 l1 h1 l2 h2 [a] = []"
| "cls2 l1 h1 l2 h2 [] = []"

fun re_Y :: "string \<Rightarrow> (nat \<times> string) list" where
  "re_Y (a # b # c # d # rest) =
     (if in_class (CHR ''0'') (CHR ''9'') a \<and> in_class (CHR ''0'') (CHR ''9'') b
         \<and> in_class (CHR ''0'') (CHR ''9'') c \<and> in_class (CHR ''0'') (CHR ''9'') d
      then [(int_of_digits [a, b, c, d], rest)] else [])"
| "re_Y [a, b, c] = []"
| "re_Y [a, b] = []"
| "re_Y [a] = []"
| "re_Y [] = []"

definition re_m :: "string \<Rightarrow> (nat \<times> string) list" where
  "re_m s = cls2 (CHR ''1'') (CHR ''1'') (CHR ''0'') (CHR ''2'') s
          @ cls2 (CHR ''0'') (CHR ''0'') (CHR ''1'') (CHR ''9'') s
          @ cls1 (CHR ''1'') (CHR ''9'') s"

text \<open>The last alternative of \<open>%d\<close> is a space and a digit; \<open>int\<close> ignores the space.\<close>

fun sp_cls1 :: "string \<Rightarrow> (nat \<times> string) list" where
  "sp_cls1 (a # b # rest) =
     (if a = CHR '' '' \<and> in_class (CHR ''1'') (CHR ''9'') b then [(int_of_digits [b], rest)]
      else [])"
| "sp_cls1 [a] = []"
| "sp_cls1 [] = []"

definition re_d :: "string \<Rightarrow> (nat \<times> string) list" where
  "re_d s = cls2 (CHR ''3'') (CHR ''3'') (CHR ''0'') (CHR ''1'') s
          @ cls2 (CHR ''1'') (CHR ''2'') (CHR ''0'') (CHR ''9'') s
          @ cls2 (CHR ''0'') (CHR ''0'') (CHR ''1'') (CHR ''9'') s
          @ cls1 (CHR ''1'') (CHR ''9'') s
          @ sp_cls1 s"

definition re_H :: "string \<Rightarrow> (nat \<times> string) list" where
  "re_H s = cls2 (CHR ''2'') (CHR ''2'') (CHR ''0'') (CHR ''3'') s
          @ cls2 (CHR ''0'') (CHR ''1'') (CHR ''0'') (CHR ''9'') s
          @ cls1 (CHR ''0'') (CHR ''9'') s"

definition re_M :: "string \<Rightarrow> (nat \<times> string) list" where
  "re_M s = cls2 (CHR ''0'') (CHR ''5'') (CHR ''0'') (CHR ''9'') s
          @ cls1 (CHR ''0'') (CHR ''9'') s"

definition re_S :: "string \<Rightarrow> (nat \<times> string) list" where
  "re_S s = cls2 (CHR ''6'') (CHR ''6'') (CHR ''0'') (CHR ''1'') s
          @ cls2 (CHR ''0'') (CHR ''5'') (CHR ''0'') (CHR ''9'') s
          @ cls1 (CHR ''0'') (CHR ''9'') s"

text \<open>A literal character of the format.\<close>

fun lit :: "char \<Rightarrow> string \<Rightarrow> string list" where
  "lit c (a # rest) = (if a = c then [rest] else [])"
| "lit c [] = []"

text \<open>
  \<^verbatim>\<open>\s+\<close>: one or more white-space characters, the longest run first. Among the
  code points below 256, \<^verbatim>\<open>\s\<close> matches 9 to 13, 28 to 32, 133 and 160.
\<close>

definition is_space :: "char \<Rightarrow> bool" where
  "is_space c =
     (let k = (of_char c :: nat)
      in (9 \<le> k \<and> k \<le> 13) \<or> (28 \<le> k \<and> k \<le> 32) \<or> k = 133 \<or> k = 160)"

fun ws_plus :: "string \<Rightarrow> string list" where
  "ws_plus (c # rest) = (if is_space c then ws_plus rest @ [rest] else [])"
| "ws_plus [] = []"

definition regex_match :: "string \<Rightarrow> ((nat \<times> nat \<times> nat \<times> nat \<times> nat \<times> nat) \<times> string) option" where
  "regex_match s =
     (case List.bind (re_Y s) (\<lambda>(Y, s1). List.bind (lit (CHR ''-'') s1) (\<lambda>s2.
           List.bind (re_m s2) (\<lambda>(m, s3). List.bind (lit (CHR ''-'') s3) (\<lambda>s4.
           List.bind (re_d s4) (\<lambda>(d, s5). List.bind (ws_plus s5) (\<lambda>s6.
           List.bind (re_H s6) (\<lambda>(H, s7). List.bind (lit (CHR '':'') s7) (\<lambda>s8.
           List.bind (re_M s8) (\<lambda>(M, s9). List.bind (lit (CHR '':'') s9) (\<lambda>s10.
           List.bind (re_S s10) (\<lambda>(S, s11). [((Y, m, d, H, M, S), s11)])))))))))))
      of [] \<Rightarrow> None | r # rs \<Rightarrow> Some r)"

text \<open>The calendar of the \<open>datetime\<close> module.\<close>

definition is_leap :: "nat \<Rightarrow> bool" where
  "is_leap y = (y mod 4 = 0 \<and> (y mod 100 \<noteq> 0 \<or> y mod 400 = 0))"

definition days_in_month :: "nat \<Rightarrow> nat \<Rightarrow> nat" where
  "days_in_month y m =
     (if m = 2 \<and> is_leap y then 29 else [0, 31, 28, 31, 30, 31, 30, 31, 31, 30, 31, 30, 31] ! m)"

definition check_date_fields :: "nat \<Rightarrow> nat \<Rightarrow> nat \<Rightarrow> bool" where
  "check_date_fields y m d =
     (1 \<le> y \<and> y \<le> 9999 \<and> 1 \<le> m \<and> m \<le> 12 \<and> 1 \<le> d \<and> d \<le> days_in_month y m)"

definition check_time_fields :: "nat \<Rightarrow> nat \<Rightarrow> nat \<Rightarrow> bool" where
  "check_time_fields H M S = (H \<le> 23 \<and> M \<le> 59 \<and> S \<le> 59)"

definition strptime :: "string \<Rightarrow> py_error + datetime" where
  "strptime s =
     (case regex_match s of
        None \<Rightarrow> Inl ValueError
      | Some ((Y, m, d, H, M, S), rest) \<Rightarrow>
          if rest = [] then
            if check_date_fields Y m d then
              if check_time_fields H M S
              then Inr \<lparr>year = Y, month = m, day = d, hour = H, minute = M, second = S\<rparr>
              else Inl ValueError
            else Inl ValueError
          else Inl ValueError)"

subsection \<open>Decoding one window\<close>

text \<open>
  Lines 56 to 62 (and 65 to 70): the rendered string when \<open>strptime\<close> accepts it, the string
  \<open>Invalid Date\<close> when anything in the \<open>try\<close> block raises.
\<close>

definition ts_str :: "byte list \<Rightarrow> string" where
  "ts_str ts_raw =
     (case format_ts ts_raw of
        Inl e \<Rightarrow> ''Invalid Date''
      | Inr s \<Rightarrow> (case strptime s of Inl e \<Rightarrow> ''Invalid Date'' | Inr dt \<Rightarrow> s))"

text \<open>
  \<open>struct.unpack('>nH', buf)\<close>: \<open>n\<close> big-endian unsigned 16-bit integers; it raises
  \<open>struct.error\<close> unless the buffer has exactly \<open>2 * n\<close> bytes.
\<close>

fun be_u16s :: "byte list \<Rightarrow> nat list" where
  "be_u16s (hi # lo # rest) = (256 * unat hi + unat lo) # be_u16s rest"
| "be_u16s [b] = []"
| "be_u16s [] = []"

definition struct_unpack_H :: "nat \<Rightarrow> byte list \<Rightarrow> py_error + nat list" where
  "struct_unpack_H n buf = (if length buf = 2 * n then Inr (be_u16s buf) else Inl StructError)"

text \<open>The body of the loop from line 48 to line 92: the record of the window found at \<open>idx\<close>.\<close>

definition parse_record :: "nat \<Rightarrow> byte list \<Rightarrow> py_error + bys_record" where
  "parse_record idx record_bytes =
     (case struct_unpack_H 6 (slice record_bytes 4 16) of
        Inl e \<Rightarrow> Inl e
      | Inr data_values \<Rightarrow>
          (let ts1_str = ts_str (slice record_bytes 16 22);
               ts2_str = ts_str (slice record_bytes 22 28)
           in case struct_unpack_H 1 (slice record_bytes 28 30) of
                Inl e \<Rightarrow> Inl e
              | Inr sp \<Rightarrow>
                  Inr \<lparr>Offset = fmt_offset idx,
                       Start_Time = ts1_str,
                       End_Time = ts2_str,
                       Duration_min = data_values ! 5,
                       Pressure_Raw = data_values ! 3,
                       Val1 = data_values ! 0,
                       Val2 = data_values ! 1,
                       Val3 = data_values ! 2,
                       Val4 = data_values ! 4,
                       Spacer = fmt_spacer (sp ! 0)\<rparr>))"

subsection \<open>The scan\<close>

text \<open>
  The \<open>while True\<close> loop of lines 36 to 95, with the cursor \<open>offset\<close> and the list
  \<open>records\<close> as its state. Both \<open>break\<close>s leave the loop with the records collected so far.
\<close>

function scan_loop :: "byte list \<Rightarrow> nat \<Rightarrow> bys_record list \<Rightarrow> py_error + bys_record list" where
  "scan_loop content offset records =
     (case bytes_find content magic offset of
        None \<Rightarrow> Inr records
      | Some idx \<Rightarrow>
          if idx + 30 > length content then Inr records
          else (case parse_record idx (slice content idx (idx + 30)) of
                  Inl e \<Rightarrow> Inl e
                | Inr rec \<Rightarrow> scan_loop content (idx + 4) (records @ [rec])))"
  by pat_completeness auto
termination
proof (relation "measure (\<lambda>(content, offset, records). length content - offset)")
  show "wf (measure (\<lambda>(content, offset, records). length content - offset))"
    by simp
next
  fix content :: "byte list" and offset idx :: nat and records :: "bys_record list"
    and rec :: bys_record
  assume found: "bytes_find content magic offset = Some idx"
    and full: "\<not> length content < idx + 30"
  have ge: "i \<le> k" if "find_at sub xs i = Some k" for sub xs i k
    using that by (induction xs arbitrary: i) (auto split: if_splits dest: Suc_leD)
  from found have "offset \<le> idx"
    by (auto simp: bytes_find_def split: if_splits dest: ge)
  with full show "((content, idx + 4, records @ [rec]), (content, offset, records))
      \<in> measure (\<lambda>(content, offset, records). length content - offset)"
    by simp
qed

declare scan_loop.simps [simp del]

text \<open>
  The result of \<open>parse_bys_file\<close> on a readable file with the given content: the records of
  the scan, or the empty list when an exception reaches the outer handler (line 110).
\<close>

definition parse_bys_file :: "byte list \<Rightarrow> bys_record list" where
  "parse_bys_file content = (case scan_loop content 0 [] of Inl e \<Rightarrow> [] | Inr records \<Rightarrow> records)"

text \<open>
  The records that the loop appends when it is entered with the cursor at \<open>offset\<close>;
  \<open>parse_bys_file\<close> is the case \<open>offset = 0\<close>.
\<close>

definition scan_from :: "byte list \<Rightarrow> nat \<Rightarrow> bys_record list" where
  "scan_from content offset =
     (case scan_loop content offset [] of Inl e \<Rightarrow> [] | Inr records \<Rightarrow> records)"

text \<open>The marker occurs in the buffer at index \<open>i\<close>.\<close>

definition marker_at :: "byte list \<Rightarrow> nat \<Rightarrow> bool" where
  "marker_at content i = (slice content i (i + 4) = magic)"

text \<open>Reading the offset of a record back from its hexadecimal rendering.\<close>

definition hex_val :: "char \<Rightarrow> nat" where
  "hex_val c = (if (of_char c :: nat) \<le> 57 then of_char c - 48 else of_char c - 55)"

definition int_of_hex :: "string \<Rightarrow> nat" where
  "int_of_hex s = foldl (\<lambda>a c. 16 * a + hex_val c) 0 s"

definition offset_of :: "bys_record \<Rightarrow> nat" where
  "offset_of r = int_of_hex (drop 2 (Offset r))"

subsection \<open>Sample buffers\<close>

text \<open>One full window whose data and timestamp bytes are all zero.\<close>

definition buf_zero :: "byte list" where
  "buf_zero = magic @ replicate 26 0"

text \<open>A marker followed by 25 bytes: one byte short of a window.\<close>

definition buf_short :: "byte list" where
  "buf_short = magic @ replicate 25 0"

text \<open>A marker, 3 bytes, and again a marker one byte short of a window.\<close>

definition buf_tail :: "byte list" where
  "buf_tail = magic @ [1, 2, 3] @ magic @ replicate 25 0"

text \<open>Two markers 4 bytes apart, at 0 and 4, each with a full window.\<close>

definition buf_overlap :: "byte list" where
  "buf_overlap = magic @ magic @ replicate 26 0"

text \<open>
  Markers at 0, 3 and 7: the one at 3 shares its first byte with the last byte of the one
  at 0, and the one at 7 follows it 4 bytes later.
\<close>

definition buf_skip :: "byte list" where
  "buf_skip = [0x28, 0x46, 0x96] @ magic @ magic @ replicate 30 0"

text \<open>Two windows back to back.\<close>

definition buf_two :: "byte list" where
  "buf_two = magic @ replicate 26 0 @ magic @ replicate 26 0"

text \<open>
  One window with the data values 258, 3, 4, 5, 6, 300, the start time 2024-01-15 08:30:00,
  an end time with month 13, and the spacer \<open>0xABCD\<close>.
\<close>

definition buf_sample :: "byte list" where
  "buf_sample = magic @ [0x01, 0x02, 0, 3, 0, 4, 0, 5, 0, 6, 0x01, 0x2C]
      @ [24, 1, 15, 8, 30, 0] @ [24, 13, 15, 16, 45, 10] @ [0xAB, 0xCD]"

text \<open>
  Two windows back to back: the first with all timestamp bytes zero, the second the window
  of \<open>buf_sample\<close>.
\<close>

definition buf_mixed :: "byte list" where
  "buf_mixed = buf_zero @ buf_sample"

section \<open>Formatting and parsing of timestamps\<close>

subsection \<open>Digits\<close>

lemma of_char_digit_char: "d < 10 \<Longrightarrow> (of_char (digit_char d) :: nat) = 48 + d"
  by (simp add: digit_char_def)

lemma str_dec_1: "n < 10 \<Longrightarrow> str_dec n = [digit_char n]"
  by (simp add: str_dec.simps[of n])

lemma str_dec_2:
  assumes "10 \<le> n" "n < 100"
  shows "str_dec n = [digit_char (n div 10), digit_char (n mod 10)]"
proof -
  from assms have "n div 10 < 10" by simp
  with assms show ?thesis by (simp add: str_dec.simps[of n] str_dec_1)
qed

lemma str_dec_3:
  assumes "100 \<le> n" "n < 1000"
  shows "str_dec n = [digit_char (n div 100), digit_char (n div 10 mod 10), digit_char (n mod 10)]"
proof -
  from assms have b: "10 \<le> n div 10" "n div 10 < 100" by simp_all
  have c: "n div 10 div 10 = n div 100" by (simp add: div_mult2_eq[symmetric])
  from assms b c show ?thesis by (simp add: str_dec.simps[of n] str_dec_2)
qed

lemma fmt_02d_1: "n < 10 \<Longrightarrow> fmt_02d n = [CHR ''0'', digit_char n]"
  by (simp add: fmt_02d_def zfill_def str_dec_1)

lemma fmt_02d_2:
  "10 \<le> n \<Longrightarrow> n < 100 \<Longrightarrow> fmt_02d n = [digit_char (n div 10), digit_char (n mod 10)]"
  by (simp add: fmt_02d_def zfill_def str_dec_2)

lemma fmt_02d_3:
  "100 \<le> n \<Longrightarrow> n < 1000 \<Longrightarrow>
   fmt_02d n = [digit_char (n div 100), digit_char (n div 10 mod 10), digit_char (n mod 10)]"
  by (simp add: fmt_02d_def zfill_def str_dec_3)

lemma in_class_digit_char:
  "d < 10 \<Longrightarrow> in_class lo hi (digit_char d) = (of_char lo \<le> 48 + d \<and> 48 + d \<le> of_char hi)"
  by (simp add: in_class_def of_char_digit_char)

lemma digit_char_neq:
  assumes "d < 10"
  shows "digit_char d \<noteq> CHR ''-''" "digit_char d \<noteq> CHR '':''" "digit_char d \<noteq> CHR '' ''"
proof -
  from assms have "(of_char (digit_char d) :: nat) \<noteq> of_char (CHR ''-'')"
    "(of_char (digit_char d) :: nat) \<noteq> of_char (CHR '':'')"
    "(of_char (digit_char d) :: nat) \<noteq> of_char (CHR '' '')"
    by (simp_all add: of_char_digit_char)
  then show "digit_char d \<noteq> CHR ''-''" "digit_char d \<noteq> CHR '':''" "digit_char d \<noteq> CHR '' ''"
    by auto
qed

lemma digit_val_digit_char: "d < 10 \<Longrightarrow> digit_val (digit_char d) = d"
  by (simp add: digit_val_def of_char_digit_char)

lemma digit_val_chr: "digit_val (CHR ''0'') = 0" "digit_val (CHR ''2'') = 2"
  by (simp_all add: digit_val_def)

lemma not_space_digit_char: "d < 10 \<Longrightarrow> \<not> is_space (digit_char d)"
  by (simp add: is_space_def of_char_digit_char)

lemma is_space_chr: "\<not> is_space (CHR ''0'')" "is_space (CHR '' '')"
  by (simp_all add: is_space_def)


subsection \<open>Each field of the format on a rendered byte\<close>

lemmas dig_simps = of_char_digit_char digit_char_neq digit_val_digit_char digit_val_chr
  not_space_digit_char is_space_chr int_of_digits_def in_class_def

lemma digits2:
  assumes "10 \<le> (n::nat)" "n < 100"
  obtains a b where "n = 10 * a + b" "1 \<le> a" "a < 10" "b < 10" "n div 10 = a" "n mod 10 = b"
proof -
  from assms have "n = 10 * (n div 10) + n mod 10" "1 \<le> n div 10" "n div 10 < 10" "n mod 10 < 10"
    by simp_all
  then show ?thesis using that by blast
qed

lemma digits3:
  assumes "100 \<le> (n::nat)" "n < 1000"
  obtains a b c where "n = 100 * a + 10 * b + c" "1 \<le> a" "a < 10" "b < 10" "c < 10"
    "n div 100 = a" "n div 10 mod 10 = b" "n mod 10 = c"
proof -
  have "n div 10 div 10 = n div 100" by (simp add: div_mult2_eq[symmetric])
  then have "n div 10 = 10 * (n div 100) + n div 10 mod 10"
    using mult_div_mod_eq[of 10 "n div 10"] by simp
  moreover have "n = 10 * (n div 10) + n mod 10" by simp
  ultimately have "n = 100 * (n div 100) + 10 * (n div 10 mod 10) + n mod 10" by linarith
  moreover from assms have "1 \<le> n div 100" "n div 100 < 10" "n div 10 mod 10 < 10" "n mod 10 < 10"
    by simp_all
  ultimately show ?thesis using that by blast
qed

lemma fmt_cases:
  assumes "n < 256"
  obtains (one) "n < 10" "fmt_02d n = [CHR ''0'', digit_char n]"
  | (two) a b where "n = 10 * a + b" "1 \<le> a" "a < 10" "b < 10" "fmt_02d n = [digit_char a, digit_char b]"
  | (three) a b c where "n = 100 * a + 10 * b + c" "1 \<le> a" "a < 10" "b < 10" "c < 10"
      "fmt_02d n = [digit_char a, digit_char b, digit_char c]"
proof -
  consider "n < 10" | "10 \<le> n" "n < 100" | "100 \<le> n" "n < 1000" using assms by linarith
  then show ?thesis
  proof cases
    case 1 then show ?thesis using one fmt_02d_1 by blast
  next
    case 2
    then obtain a b where "n = 10 * a + b" "1 \<le> a" "a < 10" "b < 10" "n div 10 = a" "n mod 10 = b"
      by (rule digits2)
    with 2 show ?thesis using two[of a b] fmt_02d_2[of n] by simp
  next
    case 3
    then obtain a b c where "n = 100 * a + 10 * b + c" "1 \<le> a" "a < 10" "b < 10" "c < 10"
    "n div 100 = a" "n div 10 mod 10 = b" "n mod 10 = c"
      by (rule digits3)
    with 3 show ?thesis using three[of a b c] fmt_02d_3[of n] by simp
  qed
qed

lemma field_m:
  assumes "n < 256"
  shows "List.bind (re_m (fmt_02d n @ CHR ''-'' # rest)) (\<lambda>(v, r). List.bind (lit (CHR ''-'') r) (f v))
       = (if 1 \<le> n \<and> n \<le> 12 then f n rest else [])"
  using assms
proof (cases n rule: fmt_cases)
  case one
  then show ?thesis by (simp add: re_m_def dig_simps)
next
  case (two a b)
  then show ?thesis by (auto simp add: re_m_def dig_simps)
next
  case (three a b c)
  then show ?thesis by (auto simp add: re_m_def dig_simps)
qed


lemma field_Y:
  assumes "n < 256"
  shows "List.bind (re_Y (CHR ''2'' # CHR ''0'' # fmt_02d n @ CHR ''-'' # rest))
           (\<lambda>(v, r). List.bind (lit (CHR ''-'') r) (f v))
       = (if n < 100 then f (2000 + n) rest else [])"
  using assms
proof (cases n rule: fmt_cases)
  case one
  then show ?thesis by (simp add: dig_simps)
next
  case (two a b)
  then show ?thesis by (auto simp add: dig_simps simp flip: add.assoc)
next
  case (three a b c)
  then show ?thesis by (auto simp add: dig_simps)
qed

lemma field_d:
  assumes "n < 256" "k < 10"
  shows "List.bind (re_d (fmt_02d n @ CHR '' '' # digit_char k # rest))
           (\<lambda>(v, r). List.bind (ws_plus r) (f v))
       = (if 1 \<le> n \<and> n \<le> 31 then f n (digit_char k # rest) else [])"
  using assms(1)
proof (cases n rule: fmt_cases)
  case one
  then show ?thesis using assms(2) by (simp add: re_d_def dig_simps)
next
  case (two a b)
  then show ?thesis using assms(2) by (auto simp add: re_d_def dig_simps)
next
  case (three a b c)
  then show ?thesis using assms(2) by (auto simp add: re_d_def dig_simps)
qed

lemma field_d0:
  assumes "n < 256"
  shows "List.bind (re_d (fmt_02d n @ CHR '' '' # CHR ''0'' # rest))
           (\<lambda>(v, r). List.bind (ws_plus r) (f v))
       = (if 1 \<le> n \<and> n \<le> 31 then f n (CHR ''0'' # rest) else [])"
  using assms(1)
proof (cases n rule: fmt_cases)
  case one
  then show ?thesis by (simp add: re_d_def dig_simps)
next
  case (two a b)
  then show ?thesis by (auto simp add: re_d_def dig_simps)
next
  case (three a b c)
  then show ?thesis by (auto simp add: re_d_def dig_simps)
qed

lemma field_H:
  assumes "n < 256"
  shows "List.bind (re_H (fmt_02d n @ CHR '':'' # rest)) (\<lambda>(v, r). List.bind (lit (CHR '':'') r) (f v))
       = (if n \<le> 23 then f n rest else [])"
  using assms
proof (cases n rule: fmt_cases)
  case one
  then show ?thesis by (simp add: re_H_def dig_simps)
next
  case (two a b)
  then show ?thesis by (auto simp add: re_H_def dig_simps)
next
  case (three a b c)
  then show ?thesis by (auto simp add: re_H_def dig_simps)
qed

lemma field_M:
  assumes "n < 256"
  shows "List.bind (re_M (fmt_02d n @ CHR '':'' # rest)) (\<lambda>(v, r). List.bind (lit (CHR '':'') r) (f v))
       = (if n \<le> 59 then f n rest else [])"
  using assms
proof (cases n rule: fmt_cases)
  case one
  then show ?thesis by (simp add: re_M_def dig_simps)
next
  case (two a b)
  then show ?thesis by (auto simp add: re_M_def dig_simps)
next
  case (three a b c)
  then show ?thesis by (auto simp add: re_M_def dig_simps)
qed

lemma field_S:
  assumes "n < 256"
  shows "\<exists>v r t. re_S (fmt_02d n) = (v, r) # t \<and> (if n \<le> 61 then v = n \<and> r = [] else r \<noteq> [])"
  using assms
proof (cases n rule: fmt_cases)
  case one
  then show ?thesis by (simp add: re_S_def dig_simps)
next
  case (two a b)
  then show ?thesis by (auto simp add: re_S_def dig_simps)
next
  case (three a b c)
  then show ?thesis by (auto simp add: re_S_def dig_simps)
qed

subsection \<open>The whole format on a rendered timestamp\<close>

lemma fmt_02d_hd:
  assumes "n < 256"
  shows "\<exists>k t. k < 10 \<and> fmt_02d n = digit_char k # t"
  using assms
proof (cases n rule: fmt_cases)
  case one
  have "CHR ''0'' = digit_char 0"
    by (rule of_char_eqI[where ?'a = nat]) (simp add: of_char_digit_char)
  with one have "(0::nat) < 10 \<and> fmt_02d n = digit_char 0 # [digit_char n]" by simp
  then show ?thesis by blast
next
  case (two a b)
  then show ?thesis by blast
next
  case (three a b c)
  then show ?thesis by blast
qed

lemma field_d_then:
  assumes "n < 256" "h < 256"
  shows "List.bind (re_d (fmt_02d n @ CHR '' '' # fmt_02d h @ rest))
           (\<lambda>(v, r). List.bind (ws_plus r) (f v))
       = (if 1 \<le> n \<and> n \<le> 31 then f n (fmt_02d h @ rest) else [])"
proof -
  obtain k t where k: "k < 10" "fmt_02d h = digit_char k # t"
    using fmt_02d_hd[OF assms(2)] by blast
  show ?thesis
    using field_d[OF assms(1) k(1), of "t @ rest" f] by (simp add: k(2))
qed

lemma regex_match_format:
  assumes "yy < 256" "mm < 256" "dd < 256" "hh < 256" "mi < 256" "ss < 256"
  shows "regex_match (''20'' @ fmt_02d yy @ ''-'' @ fmt_02d mm @ ''-'' @ fmt_02d dd @ '' ''
            @ fmt_02d hh @ '':'' @ fmt_02d mi @ '':'' @ fmt_02d ss)
       = (if yy < 100 \<and> 1 \<le> mm \<and> mm \<le> 12 \<and> 1 \<le> dd \<and> dd \<le> 31 \<and> hh \<le> 23 \<and> mi \<le> 59
          then Some ((2000 + yy, mm, dd, hh, mi, fst (hd (re_S (fmt_02d ss)))),
                     snd (hd (re_S (fmt_02d ss))))
          else None)"
proof -
  obtain v r u where S: "re_S (fmt_02d ss) = (v, r) # u"
    using field_S[OF assms(6)] by blast
  show ?thesis
    unfolding regex_match_def
    by (simp add: field_Y[OF assms(1)] field_m[OF assms(2)] field_d_then[OF assms(3) assms(4)]
        field_H[OF assms(4)] field_M[OF assms(5)] S)
qed

lemma days_in_month_le_31:
  assumes "1 \<le> (m::nat)" "m \<le> 12"
  shows "days_in_month y m \<le> 31"
proof -
  have "[0, 31, 28, 31, 30, 31, 30, 31, 31, 30, 31, 30, 31 :: nat] ! m
      \<in> set [0, 31, 28, 31, 30, 31, 30, 31, 31, 30, 31, 30, 31]"
    using assms by (intro nth_mem) simp
  then have "[0, 31, 28, 31, 30, 31, 30, 31, 31, 30, 31, 30, 31 :: nat] ! m \<le> 31"
    by auto
  then show ?thesis
    by (simp add: days_in_month_def)
qed

lemma strptime_format:
  assumes "yy < 256" "mm < 256" "dd < 256" "hh < 256" "mi < 256" "ss < 256"
  shows "strptime (''20'' @ fmt_02d yy @ ''-'' @ fmt_02d mm @ ''-'' @ fmt_02d dd @ '' ''
            @ fmt_02d hh @ '':'' @ fmt_02d mi @ '':'' @ fmt_02d ss)
       = (if yy < 100 \<and> check_date_fields (2000 + yy) mm dd \<and> check_time_fields hh mi ss
          then Inr \<lparr>year = 2000 + yy, month = mm, day = dd, hour = hh, minute = mi, second = ss\<rparr>
          else Inl ValueError)"
proof -
  obtain v r u where S: "re_S (fmt_02d ss) = (v, r) # u"
    and vr: "if ss \<le> 61 then v = ss \<and> r = [] else r \<noteq> []"
    using field_S[OF assms(6)] by blast
  have d31: "dd \<le> 31" if "check_date_fields (2000 + yy) mm dd"
    using that days_in_month_le_31[of mm "2000 + yy"] by (simp add: check_date_fields_def)
  show ?thesis
  proof (cases "ss \<le> 61")
    case True
    with vr have "v = ss" "r = []" by simp_all
    then show ?thesis
      unfolding strptime_def regex_match_format[OF assms] S
      using d31 by (auto simp add: check_date_fields_def check_time_fields_def)
  next
    case False
    with vr have "r \<noteq> []" by simp
    with False show ?thesis
      unfolding strptime_def regex_match_format[OF assms] S
      by (auto simp add: check_time_fields_def)
  qed
qed

lemma unat_byte_less: "unat (b :: byte) < 256"
  using unsigned_less[of b] by simp

lemma ts_str_char:
  assumes "6 \<le> length raw"
  shows "ts_str raw =
    (if unat (raw ! 0) < 100
        \<and> check_date_fields (2000 + unat (raw ! 0)) (unat (raw ! 1)) (unat (raw ! 2))
        \<and> check_time_fields (unat (raw ! 3)) (unat (raw ! 4)) (unat (raw ! 5))
     then ''20'' @ fmt_02d (unat (raw ! 0)) @ ''-'' @ fmt_02d (unat (raw ! 1))
          @ ''-'' @ fmt_02d (unat (raw ! 2)) @ '' '' @ fmt_02d (unat (raw ! 3))
          @ '':'' @ fmt_02d (unat (raw ! 4)) @ '':'' @ fmt_02d (unat (raw ! 5))
     else ''Invalid Date'')"
proof -
  have f: "format_ts raw = Inr (''20'' @ fmt_02d (unat (raw ! 0)) @ ''-'' @ fmt_02d (unat (raw ! 1))
          @ ''-'' @ fmt_02d (unat (raw ! 2)) @ '' '' @ fmt_02d (unat (raw ! 3))
          @ '':'' @ fmt_02d (unat (raw ! 4)) @ '':'' @ fmt_02d (unat (raw ! 5)))"
    using assms unfolding format_ts_def by (simp only: not_less[symmetric] if_False)
  show ?thesis
    unfolding ts_str_def f sum.case strptime_format[OF unat_byte_less unat_byte_less unat_byte_less
        unat_byte_less unat_byte_less unat_byte_less]
    by (simp only: sum.case if_distrib[of "case_sum _ _"] cong: if_cong)
qed

lemma ts_str_six:
  "ts_str [yy, mm, dd, hh, mi, ss] =
    (if unat yy < 100 \<and> check_date_fields (2000 + unat yy) (unat mm) (unat dd)
        \<and> check_time_fields (unat hh) (unat mi) (unat ss)
     then ''20'' @ fmt_02d (unat yy) @ ''-'' @ fmt_02d (unat mm) @ ''-'' @ fmt_02d (unat dd)
          @ '' '' @ fmt_02d (unat hh) @ '':'' @ fmt_02d (unat mi) @ '':'' @ fmt_02d (unat ss)
     else ''Invalid Date'')"
  using ts_str_char[of "[yy, mm, dd, hh, mi, ss]"] by simp

lemma strptime_six:
  "strptime (''20'' @ fmt_02d (unat (yy::byte)) @ ''-'' @ fmt_02d (unat (mm::byte)) @ ''-''
        @ fmt_02d (unat (dd::byte)) @ '' '' @ fmt_02d (unat (hh::byte)) @ '':''
        @ fmt_02d (unat (mi::byte)) @ '':'' @ fmt_02d (unat (ss::byte)))
   = (if unat yy < 100 \<and> check_date_fields (2000 + unat yy) (unat mm) (unat dd)
         \<and> check_time_fields (unat hh) (unat mi) (unat ss)
      then Inr \<lparr>year = 2000 + unat yy, month = unat mm, day = unat dd, hour = unat hh,
                minute = unat mi, second = unat ss\<rparr>
      else Inl ValueError)"
  by (rule strptime_format[OF unat_byte_less unat_byte_less unat_byte_less
        unat_byte_less unat_byte_less unat_byte_less])

section \<open>Timestamps\<close>

text \<open>
  Claim C2, amended. For six timestamp bytes \<open>(yy, mm, dd, hh, mi, ss)\<close> with \<open>yy\<close> in 0..99,
  \<open>mm\<close> in 1..12, \<open>dd\<close> a day of month \<open>mm\<close> of year \<open>2000 + yy\<close>, \<open>hh\<close> in 0..23 and
  \<open>mi\<close>, \<open>ss\<close> in 0..59, the decoded time is valid: it is the rendered string
  \<open>20YY-MM-DD HH:MM:SS\<close>, not \<open>Invalid Date\<close>, and \<open>strptime\<close> reads exactly the six
  components from it, the year being \<open>2000 + yy\<close>.
\<close>

theorem decode_timestamp_valid:
  assumes "unat yy < 100"
    and "1 \<le> unat mm" "unat mm \<le> 12"
    and "1 \<le> unat dd" "unat dd \<le> days_in_month (2000 + unat yy) (unat mm)"
    and "unat hh \<le> 23" "unat mi \<le> 59" "unat ss \<le> 59"
  shows "ts_str [yy, mm, dd, hh, mi, ss]
       = ''20'' @ fmt_02d (unat yy) @ ''-'' @ fmt_02d (unat mm) @ ''-'' @ fmt_02d (unat dd)
         @ '' '' @ fmt_02d (unat hh) @ '':'' @ fmt_02d (unat mi) @ '':'' @ fmt_02d (unat ss)
     \<and> ts_str [yy, mm, dd, hh, mi, ss] \<noteq> ''Invalid Date''
     \<and> strptime (ts_str [yy, mm, dd, hh, mi, ss])
       = Inr \<lparr>year = 2000 + unat yy, month = unat mm, day = unat dd, hour = unat hh,
              minute = unat mi, second = unat ss\<rparr>"
proof -
  from assms have ok: "unat yy < 100 \<and> check_date_fields (2000 + unat yy) (unat mm) (unat dd)
        \<and> check_time_fields (unat hh) (unat mi) (unat ss)"
    by (simp add: check_date_fields_def check_time_fields_def)
  have s: "ts_str [yy, mm, dd, hh, mi, ss]
       = ''20'' @ fmt_02d (unat yy) @ ''-'' @ fmt_02d (unat mm) @ ''-'' @ fmt_02d (unat dd)
         @ '' '' @ fmt_02d (unat hh) @ '':'' @ fmt_02d (unat mi) @ '':'' @ fmt_02d (unat ss)"
    unfolding ts_str_six using ok by (simp only: if_True simp_thms)
  have p: "strptime (ts_str [yy, mm, dd, hh, mi, ss])
       = Inr \<lparr>year = 2000 + unat yy, month = unat mm, day = unat dd, hour = unat hh,
              minute = unat mi, second = unat ss\<rparr>"
    unfolding s strptime_six using ok by (simp only: if_True simp_thms)
  have "ts_str [yy, mm, dd, hh, mi, ss] \<noteq> ''Invalid Date''"
    unfolding s by simp
  with s p show ?thesis by (simp only: simp_thms)
qed

theorem decode_timestamp_valid_witness:
  "unat (24::byte) < 100 \<and> 1 \<le> unat (2::byte) \<and> unat (2::byte) \<le> 12 \<and> 1 \<le> unat (29::byte)
    \<and> unat (29::byte) \<le> days_in_month (2000 + unat (24::byte)) (unat (2::byte))
    \<and> unat (8::byte) \<le> 23 \<and> unat (30::byte) \<le> 59 \<and> unat (0::byte) \<le> 59
    \<and> ts_str [24, 2, 29, 8, 30, 0] = ''2024-02-29 08:30:00''
    \<and> strptime (ts_str [24, 2, 29, 8, 30, 0])
       = Inr \<lparr>year = 2024, month = 2, day = 29, hour = 8, minute = 30, second = 0\<rparr>"
proof -
  have h: "unat (24::byte) < 100" "1 \<le> unat (2::byte)" "unat (2::byte) \<le> 12" "1 \<le> unat (29::byte)"
    "unat (29::byte) \<le> days_in_month (2000 + unat (24::byte)) (unat (2::byte))"
    "unat (8::byte) \<le> 23" "unat (30::byte) \<le> 59" "unat (0::byte) \<le> 59"
    by (simp_all add: days_in_month_def is_leap_def)
  have f: "fmt_02d 24 = ''24''" "fmt_02d 2 = ''02''" "fmt_02d 29 = ''29''" "fmt_02d 8 = ''08''"
    "fmt_02d 30 = ''30''" "fmt_02d 0 = ''00''"
    by code_simp+
  note w = decode_timestamp_valid[OF h]
  from w f have a: "ts_str [24, 2, 29, 8, 30, 0] = ''2024-02-29 08:30:00''"
    by simp
  from w have b: "strptime (ts_str [24, 2, 29, 8, 30, 0])
       = Inr \<lparr>year = 2024, month = 2, day = 29, hour = 8, minute = 30, second = 0\<rparr>"
    by auto
  from h a b show ?thesis by (intro conjI)
qed

text \<open>
  Claim C2 as stated lets \<open>yy\<close> range over 0..255. At \<open>yy = 100\<close> the other five components
  form a valid date and time of the year 2100, and the result is \<open>Invalid Date\<close>.
\<close>

theorem decode_timestamp_year_counterexample:
  "1 \<le> unat (1::byte) \<and> unat (1::byte) \<le> 12 \<and> unat (1::byte) \<le> days_in_month (2000 + unat (100::byte)) (unat (1::byte))
    \<and> unat (0::byte) \<le> 23 \<and> unat (0::byte) \<le> 59
    \<and> ts_str [100, 1, 1, 0, 0, 0] = ''Invalid Date''"
  by (simp add: ts_str_six days_in_month_def)


text \<open>
  Claim C8. The decoded time is \<open>Invalid Date\<close> for every six bytes whose month is not in
  1..12, whose day is not a day of that month in the year \<open>2000 + yy\<close> (February has 29 days
  in leap years only), whose hour is above 23 or whose minute or second is above 59. In
  particular it is \<open>Invalid Date\<close> for February 30 of any year, for hour 24 and for
  minute 60, whatever the other bytes are.
\<close>

theorem decode_timestamp_invalid:
  assumes "\<not> (1 \<le> unat mm \<and> unat mm \<le> 12
             \<and> 1 \<le> unat dd \<and> unat dd \<le> days_in_month (2000 + unat yy) (unat mm)
             \<and> unat hh \<le> 23 \<and> unat mi \<le> 59 \<and> unat ss \<le> 59)"
  shows "ts_str [yy, mm, dd, hh, mi, ss] = ''Invalid Date''
     \<and> ts_str [y, 2, 30, h, m, s] = ''Invalid Date''
     \<and> ts_str [y, mo, d, 24, m, s] = ''Invalid Date''
     \<and> ts_str [y, mo, d, h, 60, s] = ''Invalid Date''"
proof -
  from assms have "\<not> (check_date_fields (2000 + unat yy) (unat mm) (unat dd)
        \<and> check_time_fields (unat hh) (unat mi) (unat ss))"
    by (simp add: check_date_fields_def check_time_fields_def)
  then have 1: "ts_str [yy, mm, dd, hh, mi, ss] = ''Invalid Date''"
    unfolding ts_str_six by (simp only: simp_thms if_False)
  have "\<not> check_date_fields (2000 + unat y) (unat (2::byte)) (unat (30::byte))"
    by (simp add: check_date_fields_def days_in_month_def)
  then have 2: "ts_str [y, 2, 30, h, m, s] = ''Invalid Date''"
    unfolding ts_str_six by (simp only: simp_thms if_False)
  have "\<not> check_time_fields (unat (24::byte)) (unat m) (unat s)"
    by (simp add: check_time_fields_def)
  then have 3: "ts_str [y, mo, d, 24, m, s] = ''Invalid Date''"
    unfolding ts_str_six by (simp only: simp_thms if_False)
  have "\<not> check_time_fields (unat h) (unat (60::byte)) (unat s)"
    by (simp add: check_time_fields_def)
  then have 4: "ts_str [y, mo, d, h, 60, s] = ''Invalid Date''"
    unfolding ts_str_six by (simp only: simp_thms if_False)
  from 1 2 3 4 show ?thesis by (intro conjI)
qed

theorem decode_timestamp_invalid_witness:
  "\<not> (1 \<le> unat (2::byte) \<and> unat (2::byte) \<le> 12
      \<and> 1 \<le> unat (29::byte) \<and> unat (29::byte) \<le> days_in_month (2000 + unat (23::byte)) (unat (2::byte))
      \<and> unat (8::byte) \<le> 23 \<and> unat (30::byte) \<le> 59 \<and> unat (0::byte) \<le> 59)
   \<and> ts_str [23, 2, 29, 8, 30, 0] = ''Invalid Date''
   \<and> ts_str [24, 2, 30, 8, 30, 0] = ''Invalid Date''
   \<and> ts_str [24, 1, 15, 24, 30, 0] = ''Invalid Date''
   \<and> ts_str [24, 1, 15, 8, 60, 0] = ''Invalid Date''"
proof -
  have h: "\<not> (1 \<le> unat (2::byte) \<and> unat (2::byte) \<le> 12
      \<and> 1 \<le> unat (29::byte) \<and> unat (29::byte) \<le> days_in_month (2000 + unat (23::byte)) (unat (2::byte))
      \<and> unat (8::byte) \<le> 23 \<and> unat (30::byte) \<le> 59 \<and> unat (0::byte) \<le> 59)"
    by (simp add: days_in_month_def is_leap_def)
  from h decode_timestamp_invalid[OF h, of 24 8 30 0 1 15] show ?thesis
    by (intro conjI) blast+
qed

text \<open>
  Claim C10. When the first byte \<open>yy\<close> is in 100..255 the decoded time is \<open>Invalid Date\<close>
  whatever the other five bytes are: the year is rendered with five digits, \<open>20\<close> and the
  three digits of \<open>yy\<close>, and \<open>strptime\<close> rejects the rendered string.
\<close>

theorem decode_timestamp_year_ge_100:
  assumes "100 \<le> unat yy"
  shows "ts_str [yy, mm, dd, hh, mi, ss] = ''Invalid Date''
     \<and> format_ts [yy, mm, dd, hh, mi, ss]
         = Inr (''20'' @ [digit_char (unat yy div 100), digit_char (unat yy div 10 mod 10),
                          digit_char (unat yy mod 10)]
                @ ''-'' @ fmt_02d (unat mm) @ ''-'' @ fmt_02d (unat dd) @ '' ''
                @ fmt_02d (unat hh) @ '':'' @ fmt_02d (unat mi) @ '':'' @ fmt_02d (unat ss))
     \<and> (\<forall>s. format_ts [yy, mm, dd, hh, mi, ss] = Inr s \<longrightarrow> strptime s = Inl ValueError)"
proof -
  from assms have n: "\<not> unat yy < 100" by simp
  have 1: "ts_str [yy, mm, dd, hh, mi, ss] = ''Invalid Date''"
    unfolding ts_str_six using n by (simp only: simp_thms if_False)
  have "unat yy < 1000" using unat_byte_less[of yy] by simp
  with assms have f: "fmt_02d (unat yy) = [digit_char (unat yy div 100),
      digit_char (unat yy div 10 mod 10), digit_char (unat yy mod 10)]"
    by (rule fmt_02d_3)
  have 2: "format_ts [yy, mm, dd, hh, mi, ss]
         = Inr (''20'' @ [digit_char (unat yy div 100), digit_char (unat yy div 10 mod 10),
                          digit_char (unat yy mod 10)]
                @ ''-'' @ fmt_02d (unat mm) @ ''-'' @ fmt_02d (unat dd) @ '' ''
                @ fmt_02d (unat hh) @ '':'' @ fmt_02d (unat mi) @ '':'' @ fmt_02d (unat ss))"
    by (simp add: format_ts_def f)
  have 3: "\<forall>s. format_ts [yy, mm, dd, hh, mi, ss] = Inr s \<longrightarrow> strptime s = Inl ValueError"
    using n strptime_six[of yy mm dd hh mi ss] by (simp add: format_ts_def)
  from 1 2 3 show ?thesis by (intro conjI)
qed

theorem decode_timestamp_year_ge_100_witness:
  "100 \<le> unat (123::byte)
   \<and> check_date_fields (2000 + unat (123::byte)) (unat (12::byte)) (unat (31::byte))
   \<and> check_time_fields (unat (23::byte)) (unat (59::byte)) (unat (58::byte))
   \<and> ts_str [123, 12, 31, 23, 59, 58] = ''Invalid Date''
   \<and> format_ts [123, 12, 31, 23, 59, 58] = Inr ''20123-12-31 23:59:58''"
proof -
  have h: "100 \<le> unat (123::byte)" by simp
  have c: "check_date_fields (2000 + unat (123::byte)) (unat (12::byte)) (unat (31::byte))"
    "check_time_fields (unat (23::byte)) (unat (59::byte)) (unat (58::byte))"
    by (simp_all add: check_date_fields_def check_time_fields_def days_in_month_def)
  have f: "fmt_02d 12 = ''12''" "fmt_02d 31 = ''31''" "fmt_02d 23 = ''23''" "fmt_02d 59 = ''59''"
    "fmt_02d 58 = ''58''" "digit_char 1 = CHR ''1''" "digit_char 2 = CHR ''2''"
    "digit_char 3 = CHR ''3''"
    by code_simp+
  note w = decode_timestamp_year_ge_100[OF h, of 12 31 23 59 58]
  from w have a: "ts_str [123, 12, 31, 23, 59, 58] = ''Invalid Date''" by blast
  from w f have b: "format_ts [123, 12, 31, 23, 59, 58] = Inr ''20123-12-31 23:59:58''"
    by simp
  from h c a b show ?thesis by (intro conjI)
qed


section \<open>The marker search\<close>

lemma find_at_Some:
  "find_at sub xs i = Some k \<Longrightarrow> i \<le> k \<and> take (length sub) (drop (k - i) xs) = sub \<and> k - i \<le> length xs"
proof (induction xs arbitrary: i)
  case Nil
  then show ?case by (simp split: if_splits)
next
  case (Cons x xs)
  show ?case
  proof (cases "take (length sub) (x # xs) = sub")
    case True
    with Cons.prems show ?thesis by simp
  next
    case False
    with Cons.prems have "find_at sub xs (Suc i) = Some k" by simp
    from Cons.IH[OF this] have "Suc i \<le> k" "take (length sub) (drop (k - Suc i) xs) = sub"
      "k - Suc i \<le> length xs"
      by simp_all
    moreover from \<open>Suc i \<le> k\<close> have "k - i = Suc (k - Suc i)" by simp
    ultimately show ?thesis by simp
  qed
qed

lemma find_at_first:
  "find_at sub xs i = Some k \<Longrightarrow> d < k - i \<Longrightarrow> take (length sub) (drop d xs) \<noteq> sub"
proof (induction xs arbitrary: i d)
  case Nil
  then show ?case by (simp split: if_splits)
next
  case (Cons x xs)
  show ?case
  proof (cases "take (length sub) (x # xs) = sub")
    case True
    with Cons.prems show ?thesis by simp
  next
    case False
    with Cons.prems have f: "find_at sub xs (Suc i) = Some k" by simp
    show ?thesis
    proof (cases d)
      case 0
      with False show ?thesis by simp
    next
      case (Suc d')
      with Cons.prems(2) have "d' < k - Suc i" by simp
      from Cons.IH[OF f this] Suc show ?thesis by simp
    qed
  qed
qed

lemma find_at_exists:
  "take (length sub) (drop d xs) = sub \<Longrightarrow> d \<le> length xs \<Longrightarrow> \<exists>k. find_at sub xs i = Some k"
proof (induction xs arbitrary: i d)
  case Nil
  then show ?case by simp
next
  case (Cons x xs)
  show ?case
  proof (cases "take (length sub) (x # xs) = sub")
    case True
    then show ?thesis by simp
  next
    case False
    with Cons.prems obtain d' where d: "d = Suc d'" by (cases d) auto
    with Cons.prems have "take (length sub) (drop d' xs) = sub" "d' \<le> length xs" by simp_all
    from Cons.IH[OF this] False show ?thesis by simp
  qed
qed

lemma marker_at_iff:
  "marker_at content i \<longleftrightarrow> take (length magic) (drop i content) = magic"
proof -
  have "length magic = 4" by (simp add: magic_def)
  then show ?thesis by (simp add: marker_at_def slice_def)
qed

lemma marker_at_length: "marker_at content i \<Longrightarrow> i + 4 \<le> length content"
proof -
  assume "marker_at content i"
  then have "length (take 4 (drop i content)) = 4"
    by (simp add: marker_at_def slice_def magic_def)
  then show ?thesis by simp
qed

lemma bytes_find_Some:
  assumes "bytes_find content magic start = Some idx"
  shows "start \<le> idx" "marker_at content idx"
proof -
  from assms have le: "start \<le> length content"
    and f: "find_at magic (drop start content) start = Some idx"
    by (simp_all add: bytes_find_def split: if_splits)
  from find_at_Some[OF f] show "start \<le> idx" by simp
  from find_at_Some[OF f] have "take (length magic) (drop (idx - start) (drop start content)) = magic"
    and "start \<le> idx" by blast+
  then show "marker_at content idx" by (simp add: marker_at_iff)
qed

lemma bytes_find_first:
  assumes "bytes_find content magic start = Some idx" "start \<le> j" "j < idx"
  shows "\<not> marker_at content j"
proof -
  from assms have f: "find_at magic (drop start content) start = Some idx"
    by (simp_all add: bytes_find_def split: if_splits)
  from assms have "j - start < idx - start" by simp
  from find_at_first[OF f this] assms(2) show ?thesis by (simp add: marker_at_iff)
qed

lemma bytes_find_exists:
  assumes "marker_at content j" "start \<le> j"
  shows "\<exists>idx. bytes_find content magic start = Some idx \<and> start \<le> idx \<and> idx \<le> j
           \<and> marker_at content idx"
proof -
  from assms(1) have len: "j + 4 \<le> length content" by (rule marker_at_length)
  with assms have "take (length magic) (drop (j - start) (drop start content)) = magic"
    "j - start \<le> length (drop start content)"
    by (simp_all add: marker_at_iff)
  from find_at_exists[OF this] obtain idx where
    f: "find_at magic (drop start content) start = Some idx" by blast
  with len assms(2) have b: "bytes_find content magic start = Some idx"
    by (simp add: bytes_find_def)
  have "idx \<le> j"
  proof (rule ccontr)
    assume "\<not> idx \<le> j"
    then have "j < idx" by simp
    from bytes_find_first[OF b assms(2) this] assms(1) show False by simp
  qed
  with b bytes_find_Some[OF b] show ?thesis by simp
qed

lemma bytes_find_None:
  assumes "bytes_find content magic start = None" "start \<le> j"
  shows "\<not> marker_at content j"
proof
  assume "marker_at content j"
  from bytes_find_exists[OF this assms(2)] assms(1) show False by simp
qed


section \<open>Decoding a window\<close>

lemma slice_nth_list:
  "a \<le> b \<Longrightarrow> b \<le> length xs \<Longrightarrow> slice xs a b = map ((!) xs) [a..<b]"
  by (auto intro!: nth_equalityI simp: slice_def)

lemma length_slice: "b \<le> length xs \<Longrightarrow> length (slice xs a b) = b - a"
  by (auto simp: slice_def)

lemma nth_slice: "a + k < b \<Longrightarrow> b \<le> length xs \<Longrightarrow> slice xs a b ! k = xs ! (a + k)"
  by (auto simp: slice_def)

lemma parse_record_window:
  assumes "length w = 30"
  shows "parse_record idx w =
    Inr \<lparr>Offset = fmt_offset idx,
         Start_Time = ts_str (slice w 16 22),
         End_Time = ts_str (slice w 22 28),
         Duration_min = 256 * unat (w ! 14) + unat (w ! 15),
         Pressure_Raw = 256 * unat (w ! 10) + unat (w ! 11),
         Val1 = 256 * unat (w ! 4) + unat (w ! 5),
         Val2 = 256 * unat (w ! 6) + unat (w ! 7),
         Val3 = 256 * unat (w ! 8) + unat (w ! 9),
         Val4 = 256 * unat (w ! 12) + unat (w ! 13),
         Spacer = fmt_spacer (256 * unat (w ! 28) + unat (w ! 29))\<rparr>"
proof -
  have d: "slice w 4 16 = [w ! 4, w ! 5, w ! 6, w ! 7, w ! 8, w ! 9, w ! 10, w ! 11, w ! 12,
      w ! 13, w ! 14, w ! 15]"
    using assms by (simp add: slice_nth_list)
  have s: "slice w 28 30 = [w ! 28, w ! 29]"
    using assms by (simp add: slice_nth_list)
  show ?thesis
    unfolding parse_record_def d s by (simp add: struct_unpack_H_def)
qed

lemma hex_val_hex_char: "d < 16 \<Longrightarrow> hex_val (hex_char d) = d"
  by (simp add: hex_val_def hex_char_def)

lemma int_of_hex_snoc: "int_of_hex (s @ [c]) = 16 * int_of_hex s + hex_val c"
  by (simp add: int_of_hex_def)

lemma int_of_hex_str_hex: "int_of_hex (str_hex n) = n"
proof (induction n rule: str_hex.induct)
  case (1 n)
  show ?case
  proof (cases "n < 16")
    case True
    then show ?thesis by (simp add: str_hex.simps[of n] int_of_hex_def hex_val_hex_char)
  next
    case False
    with 1 have "int_of_hex (str_hex (n div 16)) = n div 16" by simp
    with False show ?thesis
      by (simp add: str_hex.simps[of n] int_of_hex_snoc hex_val_hex_char)
  qed
qed

lemma offset_of_parse_record:
  "parse_record idx w = Inr r \<Longrightarrow> offset_of r = idx \<and> Offset r = fmt_offset idx"
  by (auto simp: parse_record_def offset_of_def fmt_offset_def int_of_hex_str_hex Let_def
      split: sum.splits)


section \<open>The scan\<close>

lemma scan_loop_none:
  "bytes_find content magic offset = None \<Longrightarrow> scan_loop content offset records = Inr records"
  by (simp add: scan_loop.simps[of content offset records])

lemma scan_loop_short:
  "bytes_find content magic offset = Some idx \<Longrightarrow> length content < idx + 30 \<Longrightarrow>
   scan_loop content offset records = Inr records"
  by (simp add: scan_loop.simps[of content offset records])

lemma scan_loop_step:
  "bytes_find content magic offset = Some idx \<Longrightarrow> idx + 30 \<le> length content \<Longrightarrow>
   parse_record idx (slice content idx (idx + 30)) = Inr r \<Longrightarrow>
   scan_loop content offset records = scan_loop content (idx + 4) (records @ [r])"
  by (simp add: scan_loop.simps[of content offset records])

lemma parse_record_total:
  assumes "idx + 30 \<le> length content"
  shows "\<exists>r. parse_record idx (slice content idx (idx + 30)) = Inr r"
proof -
  from assms have "length (slice content idx (idx + 30)) = 30" by (simp add: length_slice)
  from parse_record_window[OF this] show ?thesis by blast
qed

lemma scan_loop_appends:
  "\<exists>rs. \<forall>records. scan_loop content offset records = Inr (records @ rs)"
proof (induction "length content - offset" arbitrary: offset rule: less_induct)
  case less
  show ?case
  proof (cases "bytes_find content magic offset")
    case None
    then have "\<forall>records. scan_loop content offset records = Inr (records @ [])"
      by (simp add: scan_loop_none)
    then show ?thesis by blast
  next
    case (Some idx)
    show ?thesis
    proof (cases "length content < idx + 30")
      case True
      with Some have "\<forall>records. scan_loop content offset records = Inr (records @ [])"
        by (simp add: scan_loop_short)
      then show ?thesis by blast
    next
      case False
      then have full: "idx + 30 \<le> length content" by simp
      then obtain r where r: "parse_record idx (slice content idx (idx + 30)) = Inr r"
        using parse_record_total by blast
      from Some have "offset \<le> idx" by (rule bytes_find_Some)
      with full have "length content - (idx + 4) < length content - offset" by simp
      from less[OF this] obtain rs where
        rs: "\<forall>records. scan_loop content (idx + 4) records = Inr (records @ rs)" by blast
      have "\<forall>records. scan_loop content offset records = Inr (records @ (r # rs))"
        by (simp add: scan_loop_step[OF Some full r] rs)
      then show ?thesis by blast
    qed
  qed
qed

lemma scan_loop_scan_from:
  "scan_loop content offset records = Inr (records @ scan_from content offset)"
proof -
  obtain rs where rs: "\<forall>records. scan_loop content offset records = Inr (records @ rs)"
    using scan_loop_appends by blast
  then have "scan_from content offset = rs" by (simp add: scan_from_def)
  with rs show ?thesis by simp
qed

lemma parse_bys_file_scan_from: "parse_bys_file content = scan_from content 0"
  by (simp add: parse_bys_file_def scan_from_def)

lemma scan_from_none: "bytes_find content magic offset = None \<Longrightarrow> scan_from content offset = []"
  by (simp add: scan_from_def scan_loop_none)

lemma scan_from_short:
  "bytes_find content magic offset = Some idx \<Longrightarrow> length content < idx + 30 \<Longrightarrow>
   scan_from content offset = []"
  by (simp add: scan_from_def scan_loop_short)

lemma scan_from_step:
  assumes "bytes_find content magic offset = Some idx" "idx + 30 \<le> length content"
    "parse_record idx (slice content idx (idx + 30)) = Inr r"
  shows "scan_from content offset = r # scan_from content (idx + 4)"
proof -
  have "scan_loop content offset [] = scan_loop content (idx + 4) [r]"
    using scan_loop_step[OF assms, of "[]"] by simp
  also have "\<dots> = Inr ([r] @ scan_from content (idx + 4))"
    by (rule scan_loop_scan_from)
  finally show ?thesis by (simp add: scan_from_def[of content offset])
qed

lemma scan_from_induct [consumes 0, case_names none short step]:
  assumes none: "\<And>offset. bytes_find content magic offset = None \<Longrightarrow> P offset"
    and short: "\<And>offset idx. bytes_find content magic offset = Some idx \<Longrightarrow>
        length content < idx + 30 \<Longrightarrow> P offset"
    and step: "\<And>offset idx r. bytes_find content magic offset = Some idx \<Longrightarrow>
        idx + 30 \<le> length content \<Longrightarrow>
        parse_record idx (slice content idx (idx + 30)) = Inr r \<Longrightarrow>
        P (idx + 4) \<Longrightarrow> P offset"
  shows "P offset"
proof (induction "length content - offset" arbitrary: offset rule: less_induct)
  case less
  show ?case
  proof (cases "bytes_find content magic offset")
    case None
    then show ?thesis by (rule none)
  next
    case (Some idx)
    show ?thesis
    proof (cases "length content < idx + 30")
      case True
      with Some show ?thesis by (rule short)
    next
      case False
      then have full: "idx + 30 \<le> length content" by simp
      then obtain r where r: "parse_record idx (slice content idx (idx + 30)) = Inr r"
        using parse_record_total by blast
      from Some have "offset \<le> idx" by (rule bytes_find_Some)
      with full have "length content - (idx + 4) < length content - offset" by simp
      then have "P (idx + 4)" by (rule less)
      with Some full r show ?thesis by (rule step)
    qed
  qed
qed

lemma scan_from_offsets:
  "sorted_wrt (<) (map offset_of (scan_from content offset))
   \<and> (\<forall>r \<in> set (scan_from content offset).
        offset \<le> offset_of r \<and> offset_of r + 30 \<le> length content
        \<and> marker_at content (offset_of r))"
proof (induction offset rule: scan_from_induct[of content])
  case (none offset)
  then show ?case by (simp add: scan_from_none)
next
  case (short offset idx)
  then show ?case by (simp add: scan_from_short)
next
  case (step offset idx r)
  from step(1) have "offset \<le> idx" "marker_at content idx" by (rule bytes_find_Some)+
  moreover from step(3) have "offset_of r = idx" by (simp add: offset_of_parse_record)
  ultimately show ?case
    using step(2,4) by (auto simp add: scan_from_step[OF step(1-3)])
qed


lemma slice_slice:
  "a + d \<le> b \<Longrightarrow> b \<le> length xs \<Longrightarrow> c \<le> d \<Longrightarrow>
   slice (slice xs a b) c d = slice xs (a + c) (a + d)"
  by (simp add: slice_def take_drop min_def add.commute)

lemma scan_from_Offset:
  "r \<in> set (scan_from content offset) \<Longrightarrow> Offset r = fmt_offset (offset_of r)"
proof (induction offset rule: scan_from_induct[of content])
  case (none offset)
  then show ?case by (simp add: scan_from_none)
next
  case (short offset idx)
  then show ?case by (simp add: scan_from_short)
next
  case (step offset idx r')
  from step(3) have "Offset r' = fmt_offset (offset_of r')"
    by (simp add: offset_of_parse_record)
  with step(4,5) show ?case
    by (auto simp add: scan_from_step[OF step(1-3)])
qed

lemma marker_at_bytes:
  assumes "marker_at content i"
  shows "content ! i = 0x28" "content ! (i + 1) = 0x46" "content ! (i + 2) = 0x96"
    "content ! (i + 3) = 0x28"
proof -
  from assms have len: "i + 4 \<le> length content" by (rule marker_at_length)
  from assms have m: "slice content i (i + 4) = magic" by (simp add: marker_at_def)
  have n: "slice content i (i + 4) ! k = content ! (i + k)" if "k < 4" for k
    using that len by (simp add: nth_slice)
  from n[of 0] m show "content ! i = 0x28" by (simp add: magic_def)
  from n[of 1] m show "content ! (i + 1) = 0x46" by (simp add: magic_def)
  from n[of 2] m show "content ! (i + 2) = 0x96" by (simp add: magic_def)
  from n[of 3] m show "content ! (i + 3) = 0x28" by (simp add: magic_def)
qed

lemma marker_not_next:
  assumes "marker_at content i"
  shows "\<not> marker_at content (i + 1)" "\<not> marker_at content (i + 2)"
proof -
  show "\<not> marker_at content (i + 1)"
  proof
    assume "marker_at content (i + 1)"
    from marker_at_bytes(1)[OF this] marker_at_bytes(2)[OF assms] show False by simp
  qed
  show "\<not> marker_at content (i + 2)"
  proof
    assume "marker_at content (i + 2)"
    from marker_at_bytes(1)[OF this] marker_at_bytes(3)[OF assms] show False by simp
  qed
qed

lemma scan_reaches:
  assumes m: "marker_at content m" and full: "m + 30 \<le> length content"
  shows "offset \<le> m \<Longrightarrow>
    (\<exists>r. parse_record m (slice content m (m + 30)) = Inr r \<and> r \<in> set (scan_from content offset))
    \<or> (offset + 3 \<le> m \<and>
        (\<exists>r. parse_record (m - 3) (slice content (m - 3) (m - 3 + 30)) = Inr r
             \<and> r \<in> set (scan_from content offset)))"
proof (induction offset rule: scan_from_induct[of content])
  case (none offset)
  from bytes_find_None[OF none(1) none(2)] m show ?case by simp
next
  case (short offset idx)
  from bytes_find_exists[OF m short(3)] short(1) have "idx \<le> m" by simp
  with short(2) full show ?case by simp
next
  case (step offset idx r)
  from bytes_find_exists[OF m step(5)] step(1) have le: "idx \<le> m" by simp
  from step(1) have ge: "offset \<le> idx" and mi: "marker_at content idx"
    by (rule bytes_find_Some)+
  note eq = scan_from_step[OF step(1-3)]
  consider "idx = m" | "idx + 4 \<le> m" | "m = idx + 1" | "m = idx + 2" | "m = idx + 3"
    using le by linarith
  then show ?case
  proof cases
    case 1
    with step(3) eq show ?thesis by auto
  next
    case 2
    from step(4)[OF this] show ?thesis
    proof
      assume "\<exists>r. parse_record m (slice content m (m + 30)) = Inr r
          \<and> r \<in> set (scan_from content (idx + 4))"
      then show ?thesis by (auto simp add: eq)
    next
      assume "idx + 4 + 3 \<le> m \<and>
        (\<exists>r. parse_record (m - 3) (slice content (m - 3) (m - 3 + 30)) = Inr r
             \<and> r \<in> set (scan_from content (idx + 4)))"
      with ge show ?thesis by (auto simp add: eq)
    qed
  next
    case 3
    with m marker_not_next(1)[OF mi] show ?thesis by simp
  next
    case 4
    with m marker_not_next(2)[OF mi] show ?thesis by simp
  next
    case 5
    then have "m - 3 = idx" by simp
    with step(3) ge 5 show ?thesis by (auto simp add: eq)
  qed
qed

lemma scan_from_member:
  assumes "r \<in> set (scan_from content offset)"
  shows "offset \<le> offset_of r" "offset_of r + 30 \<le> length content" "marker_at content (offset_of r)"
  using scan_from_offsets[of content offset] assms by blast+


lemma scan_from_suffix:
  "p \<in> set (scan_from content offset) \<Longrightarrow>
   \<exists>pre. scan_from content offset = pre @ p # scan_from content (offset_of p + 4)"
proof (induction offset rule: scan_from_induct[of content])
  case (none offset)
  then show ?case by (simp add: scan_from_none)
next
  case (short offset idx)
  then show ?case by (simp add: scan_from_short)
next
  case (step offset idx r)
  note eq = scan_from_step[OF step(1-3)]
  from step(3) have o: "offset_of r = idx" by (simp add: offset_of_parse_record)
  show ?case
  proof (cases "p = r")
    case True
    with eq o have "scan_from content offset = [] @ p # scan_from content (offset_of p + 4)"
      by simp
    then show ?thesis by blast
  next
    case False
    with step(5) eq have "p \<in> set (scan_from content (idx + 4))" by simp
    from step(4)[OF this] obtain pre where
      "scan_from content (idx + 4) = pre @ p # scan_from content (offset_of p + 4)" by blast
    with eq have "scan_from content offset = (r # pre) @ p # scan_from content (offset_of p + 4)"
      by simp
    then show ?thesis by blast
  qed
qed

lemma back_to_back_from:
  assumes len: "length content = 30 * k"
    and starts: "\<forall>i<k. marker_at content (30 * i)"
    and only: "\<forall>j. marker_at content j \<longrightarrow> 30 dvd j"
  shows "i \<le> k \<Longrightarrow> offset \<le> 30 * i \<Longrightarrow> 30 * i < offset + 30 \<Longrightarrow>
    map offset_of (scan_from content offset) = map (\<lambda>j. 30 * j) [i..<k]"
proof (induction "k - i" arbitrary: i offset)
  case 0
  then have ik: "i = k" by simp
  have "bytes_find content magic offset = None"
  proof (cases "bytes_find content magic offset")
    case None
    then show ?thesis .
  next
    case (Some idx)
    then have ge: "offset \<le> idx" and mi: "marker_at content idx"
      by (rule bytes_find_Some)+
    from mi only obtain q where q: "idx = 30 * q" by (auto elim: dvdE)
    from marker_at_length[OF mi] len q have "30 * q + 4 \<le> 30 * k" by simp
    then have "q < k" by simp
    then have "30 * q + 30 \<le> 30 * k" by simp
    with ge q ik "0.prems"(3) show ?thesis by simp
  qed
  with ik show ?case by (simp add: scan_from_none)
next
  case (Suc n)
  then have ik: "i < k" by simp
  with starts have m: "marker_at content (30 * i)" by simp
  from bytes_find_exists[OF m Suc.prems(2)] obtain idx where
    f: "bytes_find content magic offset = Some idx" and ge: "offset \<le> idx"
    and le: "idx \<le> 30 * i" and mi: "marker_at content idx"
    by blast
  from mi only obtain q where q: "idx = 30 * q" by (auto elim: dvdE)
  from le q have "q \<le> i" by simp
  moreover have "i \<le> q"
  proof (rule ccontr)
    assume "\<not> i \<le> q"
    then have "q + 1 \<le> i" by simp
    then have "30 * q + 30 \<le> 30 * i" by simp
    with ge q Suc.prems(3) show False by simp
  qed
  ultimately have idx: "idx = 30 * i" using q by simp
  from ik have "30 * i + 30 \<le> 30 * k" by simp
  with len idx have full: "idx + 30 \<le> length content" by simp
  then obtain r where r: "parse_record idx (slice content idx (idx + 30)) = Inr r"
    using parse_record_total by blast
  then have o: "offset_of r = 30 * i" using idx by (simp add: offset_of_parse_record)
  have "map offset_of (scan_from content (idx + 4)) = map (\<lambda>j. 30 * j) [Suc i..<k]"
  proof (rule Suc.hyps(1))
    from Suc.hyps(2) show "n = k - Suc i" by simp
    from ik show "Suc i \<le> k" by simp
    from idx show "idx + 4 \<le> 30 * Suc i" by simp
    from idx show "30 * Suc i < idx + 4 + 30" by simp
  qed
  with o ik show ?case
    by (simp add: scan_from_step[OF f full r] upt_conv_Cons)
qed

section \<open>The sample buffers evaluated\<close>

lemma buf_lists:
  "buf_zero = [0x28, 0x46, 0x96, 0x28, 0,0,0,0,0,0,0,0,0,0,0,0,0,0,0,0,0,0,0,0,0,0,0,0,0,0]"
  "buf_short = [0x28, 0x46, 0x96, 0x28, 0,0,0,0,0,0,0,0,0,0,0,0,0,0,0,0,0,0,0,0,0,0,0,0,0]"
  "buf_tail = [0x28, 0x46, 0x96, 0x28, 1, 2, 3,
               0x28, 0x46, 0x96, 0x28, 0,0,0,0,0,0,0,0,0,0,0,0,0,0,0,0,0,0,0,0,0,0,0,0,0]"
  "buf_overlap = [0x28, 0x46, 0x96, 0x28, 0x28, 0x46, 0x96, 0x28,
                  0,0,0,0,0,0,0,0,0,0,0,0,0,0,0,0,0,0,0,0,0,0,0,0,0,0]"
  "buf_skip = [0x28, 0x46, 0x96, 0x28, 0x46, 0x96, 0x28, 0x28, 0x46, 0x96, 0x28,
               0,0,0,0,0,0,0,0,0,0,0,0,0,0,0,0,0,0,0,0,0,0,0,0,0,0,0,0,0,0]"
  "buf_two = [0x28, 0x46, 0x96, 0x28, 0,0,0,0,0,0,0,0,0,0,0,0,0,0,0,0,0,0,0,0,0,0,0,0,0,0,
              0x28, 0x46, 0x96, 0x28, 0,0,0,0,0,0,0,0,0,0,0,0,0,0,0,0,0,0,0,0,0,0,0,0,0,0]"
  "buf_sample = [0x28, 0x46, 0x96, 0x28, 0x01, 0x02, 0, 3, 0, 4, 0, 5, 0, 6, 0x01, 0x2C,
                 24, 1, 15, 8, 30, 0, 24, 13, 15, 16, 45, 10, 0xAB, 0xCD]"
  by (simp_all add: buf_zero_def buf_short_def buf_tail_def buf_overlap_def buf_skip_def
      buf_two_def buf_sample_def magic_def numeral_eq_Suc)

lemma buf_lengths:
  "length buf_zero = 30" "length buf_short = 29" "length buf_tail = 36"
  "length buf_overlap = 34" "length buf_skip = 41" "length buf_two = 60" "length buf_sample = 30"
  by (simp_all add: buf_zero_def buf_short_def buf_tail_def buf_overlap_def buf_skip_def
      buf_two_def buf_sample_def magic_def)

lemma buf_finds:
  "bytes_find buf_zero magic 0 = Some 0"
  "bytes_find buf_short magic 0 = Some 0"
  "bytes_find buf_tail magic 0 = Some 0"
  "bytes_find buf_tail magic 4 = Some 7"
  "bytes_find buf_overlap magic 0 = Some 0"
  "bytes_find buf_overlap magic 4 = Some 4"
  "bytes_find buf_overlap magic 8 = None"
  "bytes_find buf_skip magic 0 = Some 0"
  "bytes_find buf_skip magic 4 = Some 7"
  "bytes_find buf_skip magic 11 = None"
  by (simp_all add: bytes_find_def magic_def buf_lists)

lemma buf_markers:
  "marker_at buf_overlap 0" "marker_at buf_overlap 4"
  "marker_at buf_skip 3" "marker_at buf_skip 7"
  "marker_at buf_two 0" "marker_at buf_two 30"
  by (simp_all add: marker_at_def slice_def magic_def buf_lists)

lemma buf_two_markers: "marker_at buf_two j \<longleftrightarrow> j = 0 \<or> j = 30"
proof (cases "j < 57")
  case True
  have "list_all (\<lambda>j. marker_at buf_two j = (j = 0 \<or> j = 30)) [0..<57]"
    by (simp add: buf_lists marker_at_def slice_def magic_def upt_rec)
  with True show ?thesis by (simp add: list_all_iff)
next
  case False
  then have "\<not> j + 4 \<le> length buf_two" by (simp add: buf_lengths)
  with marker_at_length[of buf_two j] have "\<not> marker_at buf_two j" by blast
  with False show ?thesis by auto
qed

lemma buf_overlap_offsets: "map offset_of (parse_bys_file buf_overlap) = [0, 4]"
proof -
  obtain r0 where r0: "parse_record 0 (slice buf_overlap 0 (0 + 30)) = Inr r0"
    using parse_record_total[of 0 buf_overlap] by (auto simp add: buf_lengths)
  obtain r1 where r1: "parse_record 4 (slice buf_overlap 4 (4 + 30)) = Inr r1"
    using parse_record_total[of 4 buf_overlap] by (auto simp add: buf_lengths)
  have "scan_from buf_overlap 0 = r0 # scan_from buf_overlap (0 + 4)"
    using buf_finds(5) _ r0 by (rule scan_from_step) (simp add: buf_lengths)
  moreover have "scan_from buf_overlap 4 = r1 # scan_from buf_overlap (4 + 4)"
    using buf_finds(6) _ r1 by (rule scan_from_step) (simp add: buf_lengths)
  moreover have "scan_from buf_overlap 8 = []"
    using buf_finds(7) by (rule scan_from_none)
  moreover from r0 r1 have "offset_of r0 = 0" "offset_of r1 = 4"
    by (simp_all add: offset_of_parse_record)
  ultimately show ?thesis by (simp add: parse_bys_file_scan_from)
qed

lemma buf_skip_offsets: "map offset_of (parse_bys_file buf_skip) = [0, 7]"
proof -
  obtain r0 where r0: "parse_record 0 (slice buf_skip 0 (0 + 30)) = Inr r0"
    using parse_record_total[of 0 buf_skip] by (auto simp add: buf_lengths)
  obtain r1 where r1: "parse_record 7 (slice buf_skip 7 (7 + 30)) = Inr r1"
    using parse_record_total[of 7 buf_skip] by (auto simp add: buf_lengths)
  have "scan_from buf_skip 0 = r0 # scan_from buf_skip (0 + 4)"
    using buf_finds(8) _ r0 by (rule scan_from_step) (simp add: buf_lengths)
  moreover have "scan_from buf_skip 4 = r1 # scan_from buf_skip (7 + 4)"
    using buf_finds(9) _ r1 by (rule scan_from_step) (simp add: buf_lengths)
  moreover have "scan_from buf_skip 11 = []"
    using buf_finds(10) by (rule scan_from_none)
  moreover from r0 r1 have "offset_of r0 = 0" "offset_of r1 = 7"
    by (simp_all add: offset_of_parse_record)
  ultimately show ?thesis by (simp add: parse_bys_file_scan_from)
qed

lemma buf_mixed_list:
  "buf_mixed = [0x28, 0x46, 0x96, 0x28, 0,0,0,0,0,0,0,0,0,0,0,0,0,0,0,0,0,0,0,0,0,0,0,0,0,0,
                0x28, 0x46, 0x96, 0x28, 0x01, 0x02, 0, 3, 0, 4, 0, 5, 0, 6, 0x01, 0x2C,
                24, 1, 15, 8, 30, 0, 24, 13, 15, 16, 45, 10, 0xAB, 0xCD]"
  by (simp add: buf_mixed_def buf_lists)

lemma buf_mixed_length: "length buf_mixed = 60"
  by (simp add: buf_mixed_def buf_lengths)

lemma buf_mixed_finds:
  "bytes_find buf_mixed magic 0 = Some 0"
  "bytes_find buf_mixed magic 4 = Some 30"
  "bytes_find buf_mixed magic 34 = None"
  by (simp_all add: bytes_find_def magic_def buf_mixed_list)

lemma buf_mixed_slices:
  "slice buf_mixed (0 + 16) (0 + 22) = [0, 0, 0, 0, 0, 0]"
  "slice buf_mixed (0 + 22) (0 + 28) = [0, 0, 0, 0, 0, 0]"
  "slice buf_mixed (30 + 16) (30 + 22) = [24, 1, 15, 8, 30, 0]"
  "slice buf_mixed (30 + 22) (30 + 28) = [24, 13, 15, 16, 45, 10]"
  by (simp_all add: slice_def buf_mixed_list)

lemma ts_str_samples:
  "ts_str [0, 0, 0, 0, 0, 0] = ''Invalid Date''"
  "ts_str [24, 1, 15, 8, 30, 0] = ''2024-01-15 08:30:00''"
  "ts_str [24, 13, 15, 16, 45, 10] = ''Invalid Date''"
proof -
  have f: "fmt_02d 24 = ''24''" "fmt_02d 1 = ''01''" "fmt_02d 15 = ''15''" "fmt_02d 8 = ''08''"
    "fmt_02d 30 = ''30''" "fmt_02d 0 = ''00''" "fmt_02d (Suc 0) = ''01''"
    by code_simp+
  show "ts_str [0, 0, 0, 0, 0, 0] = ''Invalid Date''"
    "ts_str [24, 1, 15, 8, 30, 0] = ''2024-01-15 08:30:00''"
    "ts_str [24, 13, 15, 16, 45, 10] = ''Invalid Date''"
    by (simp_all add: ts_str_six check_date_fields_def check_time_fields_def days_in_month_def f)
qed

lemma hex_char_samples:
  "hex_char 0 = CHR ''0''" "hex_char 1 = CHR ''1''" "hex_char 10 = CHR ''A''"
  "hex_char 11 = CHR ''B''" "hex_char 12 = CHR ''C''" "hex_char 13 = CHR ''D''"
  "hex_char 14 = CHR ''E''" "hex_char (Suc 0) = CHR ''1''" "hex_char 4 = CHR ''4''"
  by code_simp+

lemma fmt_offset_samples: "fmt_offset 0 = ''0x0''" "fmt_offset 30 = ''0x1E''"
  "fmt_offset 4 = ''0x4''" "fmt_spacer 43981 = ''0xABCD''" "fmt_spacer 0 = ''0x0000''"
proof -
  have r: "replicate 3 (CHR ''0'') = ''000''" by (simp add: numeral_3_eq_3)
  show "fmt_offset 0 = ''0x0''" "fmt_offset 30 = ''0x1E''"
    "fmt_offset 4 = ''0x4''" "fmt_spacer 43981 = ''0xABCD''" "fmt_spacer 0 = ''0x0000''"
    by (simp_all add: fmt_offset_def fmt_spacer_def zfill_def str_hex.simps hex_char_samples r)
qed


section \<open>Properties of the scan\<close>

text \<open>
  Claim C1. A buffer made of \<open>k\<close> windows of 30 bytes back to back, each starting with the
  marker, in which the marker occurs at no other index, gives exactly \<open>k\<close> records, in
  increasing order of offset, the \<open>i\<close>-th with offset \<open>30 * i\<close> (rendered in the record as
  the hexadecimal string of \<open>30 * i\<close>).
\<close>

theorem back_to_back_windows:
  assumes "length content = 30 * k"
    and "\<forall>i<k. marker_at content (30 * i)"
    and "\<forall>j. marker_at content j \<longrightarrow> 30 dvd j"
  shows "length (parse_bys_file content) = k
     \<and> map offset_of (parse_bys_file content) = map (\<lambda>i. 30 * i) [0..<k]
     \<and> map Offset (parse_bys_file content) = map (\<lambda>i. fmt_offset (30 * i)) [0..<k]"
proof -
  have o: "map offset_of (scan_from content 0) = map (\<lambda>i. 30 * i) [0..<k]"
    using back_to_back_from[OF assms, of 0 0] by simp
  then have "length (map offset_of (scan_from content 0)) = length (map (\<lambda>i. 30 * i) [0..<k])"
    by simp
  then have l: "length (scan_from content 0) = k" by simp
  have "map Offset (scan_from content 0) = map fmt_offset (map offset_of (scan_from content 0))"
    by (simp add: scan_from_Offset)
  also have "\<dots> = map (\<lambda>i. fmt_offset (30 * i)) [0..<k]"
    unfolding o by simp
  finally show ?thesis using o l by (simp add: parse_bys_file_scan_from)
qed

theorem back_to_back_windows_witness:
  "length buf_two = 30 * 2 \<and> marker_at buf_two (30 * 0) \<and> marker_at buf_two (30 * 1)
   \<and> length (parse_bys_file buf_two) = 2
   \<and> map offset_of (parse_bys_file buf_two) = [0, 30]
   \<and> map Offset (parse_bys_file buf_two) = [''0x0'', ''0x1E'']"
proof -
  have h1: "length buf_two = 30 * 2" by (simp add: buf_lengths)
  have h2: "\<forall>i<2. marker_at buf_two (30 * i)"
    by (simp add: buf_two_markers less_2_cases_iff)
  have h3: "\<forall>j. marker_at buf_two j \<longrightarrow> 30 dvd j"
    by (auto simp add: buf_two_markers)
  have u: "[0..<2] = [0, 1 :: nat]" by (simp add: upt_rec)
  note w = back_to_back_windows[OF h1 h2 h3, unfolded u]
  from w have "length (parse_bys_file buf_two) = 2"
    "map offset_of (parse_bys_file buf_two) = [0, 30]"
    "map Offset (parse_bys_file buf_two) = [''0x0'', ''0x1E'']"
    by (simp_all add: fmt_offset_samples)
  with h1 buf_markers(5,6) show ?thesis by simp
qed

text \<open>
  Claim C3. When the marker is found at an index \<open>idx\<close> with fewer than 30 bytes from
  \<open>idx\<close> to the end of the buffer, the loop ends without an error and returns the records
  collected before; no record of the result has the offset \<open>idx\<close>. This covers the marker
  that is one byte short of a window, \<open>idx + 30 = length content + 1\<close>.
\<close>

theorem truncated_window_dropped:
  assumes "bytes_find content magic offset = Some idx" "length content < idx + 30"
  shows "scan_loop content offset records = Inr records
     \<and> (\<forall>r \<in> set (parse_bys_file content). offset_of r \<noteq> idx)"
proof -
  have "scan_loop content offset records = Inr records"
    using assms by (rule scan_loop_short)
  moreover have "offset_of r \<noteq> idx" if "r \<in> set (parse_bys_file content)" for r
  proof -
    from that scan_from_offsets[of content 0] have "offset_of r + 30 \<le> length content"
      by (simp add: parse_bys_file_scan_from)
    with assms(2) show ?thesis by simp
  qed
  ultimately show ?thesis by blast
qed

theorem truncated_window_dropped_witness:
  "bytes_find buf_tail magic 4 = Some 7 \<and> length buf_tail < 7 + 30
   \<and> 7 + 30 = length buf_tail + 1
   \<and> map offset_of (parse_bys_file buf_tail) = [0]"
proof -
  have h1: "bytes_find buf_tail magic 4 = Some 7" by (rule buf_finds)
  have h2: "length buf_tail < 7 + 30" by (simp add: buf_lengths)
  obtain r0 where r0: "parse_record 0 (slice buf_tail 0 (0 + 30)) = Inr r0"
    using parse_record_total[of 0 buf_tail] by (auto simp add: buf_lengths)
  have "scan_loop buf_tail 0 [] = scan_loop buf_tail (0 + 4) ([] @ [r0])"
    using buf_finds(3) _ r0 by (rule scan_loop_step) (simp add: buf_lengths)
  also have "\<dots> = Inr ([] @ [r0])"
    using truncated_window_dropped[OF h1 h2, of "[] @ [r0]"] by simp
  finally have "parse_bys_file buf_tail = [r0]" by (simp add: parse_bys_file_def)
  moreover from r0 have "offset_of r0 = 0" by (simp add: offset_of_parse_record)
  ultimately show ?thesis using h1 by (simp add: buf_lengths)
qed

text \<open>
  Claim C4, amended. After the window matched at \<open>idx\<close> is decoded the loop continues with
  the cursor at \<open>idx + 4\<close>. For a buffer with marker occurrences at \<open>p\<close> and \<open>p + 4\<close> and a full
  window of 30 bytes from each: entered with the cursor at \<open>p\<close>, the loop decodes the window
  at \<open>p\<close>, moves the cursor to \<open>p + 4\<close>, decodes the window at \<open>p + 4\<close>, which overlaps the
  first, and moves the cursor to \<open>p + 8\<close>. The result of the whole scan has the record of the
  window at \<open>p + 4\<close>, and the record of the window at \<open>p\<close> unless the marker also occurs at
  \<open>p - 3\<close> and was matched there, in which case the result has the record at \<open>p - 3\<close>. When
  the marker does not occur at \<open>p - 3\<close>, both windows are in the result.
\<close>

theorem overlapping_markers_decoded:
  assumes "marker_at content p" and "marker_at content (p + 4)"
    and "p + 4 + 30 \<le> length content"
  shows "\<exists>r1 r2. parse_record p (slice content p (p + 30)) = Inr r1
      \<and> parse_record (p + 4) (slice content (p + 4) (p + 4 + 30)) = Inr r2
      \<and> offset_of r1 = p \<and> offset_of r2 = p + 4
      \<and> scan_loop content p records = scan_loop content (p + 4) (records @ [r1])
      \<and> scan_loop content (p + 4) (records @ [r1])
          = scan_loop content (p + 4 + 4) (records @ [r1] @ [r2])
      \<and> r2 \<in> set (parse_bys_file content)
      \<and> (r1 \<in> set (parse_bys_file content)
          \<or> (3 \<le> p \<and> marker_at content (p - 3)
              \<and> (\<exists>r0 \<in> set (parse_bys_file content). offset_of r0 = p - 3)))
      \<and> ((p < 3 \<or> \<not> marker_at content (p - 3)) \<longrightarrow> r1 \<in> set (parse_bys_file content))"
proof -
  from assms(3) have full1: "p + 30 \<le> length content" by simp
  obtain r1 where r1: "parse_record p (slice content p (p + 30)) = Inr r1"
    using parse_record_total[OF full1] by blast
  obtain r2 where r2: "parse_record (p + 4) (slice content (p + 4) (p + 4 + 30)) = Inr r2"
    using parse_record_total[OF assms(3)] by blast
  have in1: "r1 \<in> set (scan_from content 0)
      \<or> (3 \<le> p \<and> marker_at content (p - 3)
          \<and> (\<exists>r0 \<in> set (scan_from content 0). offset_of r0 = p - 3))"
  proof -
    from scan_reaches[OF assms(1) full1, of 0] r1
    consider "r1 \<in> set (scan_from content 0)"
      | r where "3 \<le> p" "parse_record (p - 3) (slice content (p - 3) (p - 3 + 30)) = Inr r"
          "r \<in> set (scan_from content 0)"
      by auto
    then show ?thesis
    proof cases
      case 1
      then show ?thesis by simp
    next
      case 2
      from 2(2) have o: "offset_of r = p - 3" by (simp add: offset_of_parse_record)
      with scan_from_member(3)[OF 2(3)] have "marker_at content (p - 3)" by simp
      with 2(1,3) o show ?thesis by blast
    qed
  qed
  have in2: "r2 \<in> set (scan_from content 0)"
  proof -
    from scan_reaches[OF assms(2) assms(3), of 0] r2
    consider "r2 \<in> set (scan_from content 0)"
      | r where "parse_record (p + 4 - 3) (slice content (p + 4 - 3) (p + 4 - 3 + 30)) = Inr r"
          "r \<in> set (scan_from content 0)"
      by auto
    then show ?thesis
    proof cases
      case 1
      then show ?thesis .
    next
      case 2
      from 2(1) have "offset_of r = p + 1" by (simp add: offset_of_parse_record)
      with scan_from_member(3)[OF 2(2)] have "marker_at content (p + 1)" by simp
      with marker_not_next(1)[OF assms(1)] show ?thesis by simp
    qed
  qed
  have f1: "bytes_find content magic p = Some p"
    using bytes_find_exists[OF assms(1), of p] by auto
  have f2: "bytes_find content magic (p + 4) = Some (p + 4)"
    using bytes_find_exists[OF assms(2), of "p + 4"] by auto
  have s1: "scan_loop content p records = scan_loop content (p + 4) (records @ [r1])"
    using f1 full1 r1 by (rule scan_loop_step)
  have "scan_loop content (p + 4) (records @ [r1])
      = scan_loop content (p + 4 + 4) ((records @ [r1]) @ [r2])"
    using f2 assms(3) r2 by (rule scan_loop_step)
  then have s2: "scan_loop content (p + 4) (records @ [r1])
      = scan_loop content (p + 4 + 4) (records @ [r1] @ [r2])"
    by simp
  from r1 r2 have o: "offset_of r1 = p" "offset_of r2 = p + 4"
    by (simp_all add: offset_of_parse_record)
  from in1 have in1': "(p < 3 \<or> \<not> marker_at content (p - 3)) \<longrightarrow> r1 \<in> set (scan_from content 0)"
    by auto
  from r1 r2 o s1 s2 in2 in1 in1' show ?thesis
    unfolding parse_bys_file_scan_from by (intro exI conjI)
qed

theorem overlapping_markers_decoded_witness:
  "marker_at buf_overlap 0 \<and> marker_at buf_overlap (0 + 4) \<and> 0 + 4 + 30 \<le> length buf_overlap
   \<and> 0 \<in> offset_of ` set (parse_bys_file buf_overlap)
   \<and> 4 \<in> offset_of ` set (parse_bys_file buf_overlap)"
proof -
  have h1: "marker_at buf_overlap 0" and h2: "marker_at buf_overlap (0 + 4)"
    using buf_markers(1,2) by simp_all
  have h3: "0 + 4 + 30 \<le> length buf_overlap" by (simp add: buf_lengths)
  from overlapping_markers_decoded[OF h1 h2 h3, of "[]"] obtain r1 r2 where
    "offset_of r1 = 0" "offset_of r2 = 0 + 4" "r2 \<in> set (parse_bys_file buf_overlap)"
    "(0 < (3::nat) \<or> \<not> marker_at buf_overlap (0 - 3)) \<longrightarrow> r1 \<in> set (parse_bys_file buf_overlap)"
    by (elim exE conjE)
  then have "0 \<in> offset_of ` set (parse_bys_file buf_overlap)"
    "4 \<in> offset_of ` set (parse_bys_file buf_overlap)"
    by force+
  with h1 h2 h3 show ?thesis by (intro conjI)
qed

text \<open>
  Claim C4 as stated promises a record for each of two markers 4 bytes apart. In
  \<open>buf_skip\<close> the marker occurs at 3 and at 7 with a full window from each, and the scan
  returns the records at 0 and 7: after the match at 0 the cursor is at 4, past the marker
  at 3.
\<close>

theorem overlapping_markers_counterexample:
  "marker_at buf_skip 3 \<and> marker_at buf_skip (3 + 4)
   \<and> 3 + 30 \<le> length buf_skip \<and> 3 + 4 + 30 \<le> length buf_skip
   \<and> map offset_of (parse_bys_file buf_skip) = [0, 7]
   \<and> 3 \<notin> offset_of ` set (parse_bys_file buf_skip)"
proof -
  have "set (map offset_of (parse_bys_file buf_skip)) = {0, 7}"
    unfolding buf_skip_offsets by simp
  then have "3 \<notin> offset_of ` set (parse_bys_file buf_skip)" by simp
  with buf_markers(3,4) buf_skip_offsets show ?thesis by (simp add: buf_lengths)
qed


text \<open>
  Claim C5. For every buffer the offsets of the returned records are strictly increasing
  along the list; the \<open>Offset\<close> field of each record is the hexadecimal rendering of that
  offset.
\<close>

theorem offsets_strictly_increasing:
  "sorted_wrt (<) (map offset_of (parse_bys_file content))
   \<and> map Offset (parse_bys_file content) = map (fmt_offset \<circ> offset_of) (parse_bys_file content)"
proof -
  have "map Offset (scan_from content 0) = map (fmt_offset \<circ> offset_of) (scan_from content 0)"
    by (simp add: scan_from_Offset)
  with scan_from_offsets[of content 0] show ?thesis
    by (simp add: parse_bys_file_scan_from)
qed

theorem offsets_strictly_increasing_witness:
  "map offset_of (parse_bys_file buf_overlap) = [0, 4]
   \<and> sorted_wrt (<) (map offset_of (parse_bys_file buf_overlap))
   \<and> map Offset (parse_bys_file buf_overlap) = [''0x0'', ''0x4'']"
proof -
  note w = offsets_strictly_increasing[of buf_overlap]
  from w have "sorted_wrt (<) (map offset_of (parse_bys_file buf_overlap))" by blast
  moreover from w have "map Offset (parse_bys_file buf_overlap)
      = map fmt_offset (map offset_of (parse_bys_file buf_overlap))"
    by simp
  then have "map Offset (parse_bys_file buf_overlap) = [''0x0'', ''0x4'']"
    by (simp add: buf_overlap_offsets fmt_offset_samples)
  ultimately show ?thesis using buf_overlap_offsets by simp
qed

text \<open>
  Claim C6. When the marker is found at \<open>idx\<close> with a full window of 30 bytes, the loop
  appends the record of that window and goes on with the cursor at \<open>idx + 4\<close>, whatever the
  two timestamps are: the record carries \<open>ts_str\<close> of the bytes \<open>[16:22)\<close> and \<open>[22:28)\<close> of
  the window, which is \<open>Invalid Date\<close> for a malformed timestamp. The loop ends without an
  error, and its result is the records it had, this record, and all the records of the scan
  from \<open>idx + 4\<close>. When the cursor is one that the scan of the whole buffer takes, that is 0
  or 4 past the offset of a returned record, the record is in the result of
  \<open>parse_bys_file\<close>.
\<close>

theorem record_appended_whatever_the_times:
  assumes "bytes_find content magic offset = Some idx" "idx + 30 \<le> length content"
  shows "\<exists>r. parse_record idx (slice content idx (idx + 30)) = Inr r
           \<and> Offset r = fmt_offset idx
           \<and> Start_Time r = ts_str (slice content (idx + 16) (idx + 22))
           \<and> End_Time r = ts_str (slice content (idx + 22) (idx + 28))
           \<and> scan_loop content offset records = scan_loop content (idx + 4) (records @ [r])
           \<and> scan_loop content offset records
               = Inr (records @ r # scan_from content (idx + 4))
           \<and> scan_from content offset = r # scan_from content (idx + 4)
           \<and> (offset = 0 \<longrightarrow> parse_bys_file content = r # scan_from content (idx + 4))
           \<and> ((offset = 0 \<or> (\<exists>p \<in> set (parse_bys_file content). offset = offset_of p + 4))
                \<longrightarrow> r \<in> set (parse_bys_file content))"
proof -
  from assms(2) have len: "length (slice content idx (idx + 30)) = 30"
    by (simp add: length_slice)
  define w where "w = slice content idx (idx + 30)"
  define r where "r = \<lparr>Offset = fmt_offset idx,
         Start_Time = ts_str (slice w 16 22),
         End_Time = ts_str (slice w 22 28),
         Duration_min = 256 * unat (w ! 14) + unat (w ! 15),
         Pressure_Raw = 256 * unat (w ! 10) + unat (w ! 11),
         Val1 = 256 * unat (w ! 4) + unat (w ! 5),
         Val2 = 256 * unat (w ! 6) + unat (w ! 7),
         Val3 = 256 * unat (w ! 8) + unat (w ! 9),
         Val4 = 256 * unat (w ! 12) + unat (w ! 13),
         Spacer = fmt_spacer (256 * unat (w ! 28) + unat (w ! 29))\<rparr>"
  have p: "parse_record idx (slice content idx (idx + 30)) = Inr r"
    unfolding r_def w_def by (rule parse_record_window[OF len])
  have s: "slice w 16 22 = slice content (idx + 16) (idx + 22)"
    "slice w 22 28 = slice content (idx + 22) (idx + 28)"
    unfolding w_def using assms(2) by (simp_all add: slice_slice)
  have f: "Offset r = fmt_offset idx"
    "Start_Time r = ts_str (slice content (idx + 16) (idx + 22))"
    "End_Time r = ts_str (slice content (idx + 22) (idx + 28))"
    by (simp_all add: r_def s)
  have st: "scan_loop content offset records = scan_loop content (idx + 4) (records @ [r])"
    using assms p by (rule scan_loop_step)
  have eq: "scan_from content offset = r # scan_from content (idx + 4)"
    using assms p by (rule scan_from_step)
  have "scan_loop content offset records = Inr (records @ scan_from content offset)"
    by (rule scan_loop_scan_from)
  with eq have res: "scan_loop content offset records
      = Inr (records @ r # scan_from content (idx + 4))"
    by simp
  have z: "offset = 0 \<longrightarrow> parse_bys_file content = r # scan_from content (idx + 4)"
    using eq by (auto simp add: parse_bys_file_scan_from)
  have m: "(offset = 0 \<or> (\<exists>p \<in> set (parse_bys_file content). offset = offset_of p + 4))
      \<longrightarrow> r \<in> set (parse_bys_file content)"
  proof
    assume "offset = 0 \<or> (\<exists>p \<in> set (parse_bys_file content). offset = offset_of p + 4)"
    then show "r \<in> set (parse_bys_file content)"
    proof
      assume "offset = 0"
      with z show ?thesis by simp
    next
      assume "\<exists>p \<in> set (parse_bys_file content). offset = offset_of p + 4"
      then obtain q where q: "q \<in> set (scan_from content 0)" "offset = offset_of q + 4"
        by (auto simp add: parse_bys_file_scan_from)
      from scan_from_suffix[OF q(1)] obtain pre where
        "scan_from content 0 = pre @ q # scan_from content (offset_of q + 4)" by blast
      with q(2) eq have "scan_from content 0 = pre @ q # r # scan_from content (idx + 4)"
        by simp
      then show ?thesis by (simp add: parse_bys_file_scan_from)
    qed
  qed
  from p f st res eq z m show ?thesis by (intro exI conjI)
qed

theorem record_appended_whatever_the_times_witness:
  "bytes_find buf_mixed magic 0 = Some 0 \<and> 0 + 30 \<le> length buf_mixed
   \<and> bytes_find buf_mixed magic (0 + 4) = Some 30 \<and> 30 + 30 \<le> length buf_mixed
   \<and> (\<exists>r0 r1. parse_bys_file buf_mixed = [r0, r1]
          \<and> Offset r0 = ''0x0''
          \<and> Start_Time r0 = ''Invalid Date'' \<and> End_Time r0 = ''Invalid Date''
          \<and> Offset r1 = ''0x1E''
          \<and> Start_Time r1 = ''2024-01-15 08:30:00'' \<and> End_Time r1 = ''Invalid Date'')"
proof -
  have h1: "bytes_find buf_mixed magic 0 = Some 0" by (rule buf_mixed_finds)
  have h2: "0 + 30 \<le> length buf_mixed" by (simp add: buf_mixed_length)
  have g1: "bytes_find buf_mixed magic (0 + 4) = Some 30" by (simp add: buf_mixed_finds)
  have g2: "30 + 30 \<le> length buf_mixed" by (simp add: buf_mixed_length)
  from record_appended_whatever_the_times[OF h1 h2, of "[]"] obtain r0 where
    r0: "Offset r0 = fmt_offset 0"
      "Start_Time r0 = ts_str (slice buf_mixed (0 + 16) (0 + 22))"
      "End_Time r0 = ts_str (slice buf_mixed (0 + 22) (0 + 28))"
      "(0::nat) = 0 \<longrightarrow> parse_bys_file buf_mixed = r0 # scan_from buf_mixed (0 + 4)"
    by (elim exE conjE)
  from record_appended_whatever_the_times[OF g1 g2, of "[]"] obtain r1 where
    r1: "Offset r1 = fmt_offset 30"
      "Start_Time r1 = ts_str (slice buf_mixed (30 + 16) (30 + 22))"
      "End_Time r1 = ts_str (slice buf_mixed (30 + 22) (30 + 28))"
      "scan_from buf_mixed (0 + 4) = r1 # scan_from buf_mixed (30 + 4)"
    by (elim exE conjE)
  have e: "scan_from buf_mixed (30 + 4) = []"
    using buf_mixed_finds(3) by (simp add: scan_from_none)
  from r0(4) r1(4) e have l: "parse_bys_file buf_mixed = [r0, r1]" by simp
  from r0(1-3) have a: "Offset r0 = ''0x0''" "Start_Time r0 = ''Invalid Date''"
    "End_Time r0 = ''Invalid Date''"
    unfolding buf_mixed_slices ts_str_samples fmt_offset_samples by simp_all
  from r1(1-3) have b: "Offset r1 = ''0x1E''" "Start_Time r1 = ''2024-01-15 08:30:00''"
    "End_Time r1 = ''Invalid Date''"
    unfolding buf_mixed_slices ts_str_samples fmt_offset_samples by simp_all
  from l a b have "\<exists>r0 r1. parse_bys_file buf_mixed = [r0, r1]
          \<and> Offset r0 = ''0x0''
          \<and> Start_Time r0 = ''Invalid Date'' \<and> End_Time r0 = ''Invalid Date''
          \<and> Offset r1 = ''0x1E''
          \<and> Start_Time r1 = ''2024-01-15 08:30:00'' \<and> End_Time r1 = ''Invalid Date''"
    by (intro exI conjI)
  with h1 h2 g1 g2 show ?thesis by (intro conjI)
qed

text \<open>
  Claim C7. A buffer of fewer than 30 bytes, the empty buffer included, gives no record.
\<close>

theorem short_buffer_no_records:
  assumes "length content < 30"
  shows "parse_bys_file content = []"
proof (cases "bytes_find content magic 0")
  case None
  then show ?thesis by (simp add: parse_bys_file_scan_from scan_from_none)
next
  case (Some idx)
  moreover from assms have "length content < idx + 30" by simp
  ultimately show ?thesis by (simp add: parse_bys_file_scan_from scan_from_short)
qed

theorem short_buffer_no_records_witness:
  "length buf_short < 30 \<and> marker_at buf_short 0 \<and> parse_bys_file buf_short = []
   \<and> parse_bys_file [] = []"
proof -
  have h: "length buf_short < 30" by (simp add: buf_lengths)
  have m: "marker_at buf_short 0" by (simp add: marker_at_def slice_def magic_def buf_lists)
  have e: "length ([] :: byte list) < 30" by simp
  from h m short_buffer_no_records[OF h] short_buffer_no_records[OF e] show ?thesis by simp
qed

text \<open>
  Claim C9. For the window \<open>w\<close> of 30 bytes at a matched index, decoding succeeds for every
  byte pattern. The six data values are the big-endian unsigned 16-bit integers of the bytes
  \<open>[4:16)\<close>, the \<open>i\<close>-th being \<open>256 * w[4 + 2i] + w[5 + 2i]\<close>; the record stores them under
  \<open>Val1\<close>, \<open>Val2\<close>, \<open>Val3\<close>, \<open>Pressure Raw\<close>, \<open>Val4\<close> and \<open>Duration (min)\<close>. The spacer is
  the big-endian unsigned 16-bit integer of the bytes \<open>[28:30)\<close>, rendered with four
  hexadecimal digits. All seven numbers are below \<open>65536\<close>.
\<close>

theorem window_values_big_endian:
  assumes "idx + 30 \<le> length content" and "w = slice content idx (idx + 30)"
  shows "\<exists>r. parse_record idx w = Inr r
     \<and> struct_unpack_H 6 (slice w 4 16)
         = Inr [Val1 r, Val2 r, Val3 r, Pressure_Raw r, Val4 r, Duration_min r]
     \<and> [Val1 r, Val2 r, Val3 r, Pressure_Raw r, Val4 r, Duration_min r]
         = map (\<lambda>i. 256 * unat (w ! (4 + 2 * i)) + unat (w ! (5 + 2 * i))) [0..<6]
     \<and> list_all (\<lambda>v. v < 65536) [Val1 r, Val2 r, Val3 r, Pressure_Raw r, Val4 r, Duration_min r]
     \<and> struct_unpack_H 1 (slice w 28 30) = Inr [256 * unat (w ! 28) + unat (w ! 29)]
     \<and> Spacer r = fmt_spacer (256 * unat (w ! 28) + unat (w ! 29))
     \<and> 256 * unat (w ! 28) + unat (w ! 29) < 65536"
proof -
  from assms have len: "length w = 30" by (simp add: length_slice)
  have d: "slice w 4 16 = [w ! 4, w ! 5, w ! 6, w ! 7, w ! 8, w ! 9, w ! 10, w ! 11, w ! 12,
      w ! 13, w ! 14, w ! 15]"
    using len by (simp add: slice_nth_list)
  have s: "slice w 28 30 = [w ! 28, w ! 29]"
    using len by (simp add: slice_nth_list)
  have b: "256 * unat x + unat y < 65536" for x y :: byte
    using unat_byte_less[of x] unat_byte_less[of y] by simp
  have u: "[0..<6] = [0, 1, 2, 3, 4, 5 :: nat]"
    by (simp add: upt_rec)
  show ?thesis
    unfolding parse_record_window[OF len] d s u
    by (simp add: struct_unpack_H_def b)
qed


theorem window_values_big_endian_witness:
  "0 + 30 \<le> length buf_sample \<and> buf_sample = slice buf_sample 0 (0 + 30)
   \<and> (\<exists>r. parse_record 0 buf_sample = Inr r
          \<and> [Val1 r, Val2 r, Val3 r, Pressure_Raw r, Val4 r, Duration_min r]
              = [258, 3, 4, 5, 6, 300]
          \<and> Spacer r = ''0xABCD'')"
proof -
  have h1: "0 + 30 \<le> length buf_sample" by (simp add: buf_lengths)
  have h2: "buf_sample = slice buf_sample 0 (0 + 30)"
    by (simp add: slice_def buf_lengths)
  have u: "[0..<6] = [0, 1, 2, 3, 4, 5 :: nat]" by (simp add: upt_rec)
  have v: "map (\<lambda>i. 256 * unat (buf_sample ! (4 + 2 * i)) + unat (buf_sample ! (5 + 2 * i))) [0..<6]
      = [258, 3, 4, 5, 6, 300]"
    unfolding u by (simp add: buf_lists)
  have sp: "256 * unat (buf_sample ! 28) + unat (buf_sample ! 29) = 43981"
    by (simp add: buf_lists)
  have "\<exists>r. parse_record 0 buf_sample = Inr r
      \<and> [Val1 r, Val2 r, Val3 r, Pressure_Raw r, Val4 r, Duration_min r] = [258, 3, 4, 5, 6, 300]
      \<and> Spacer r = ''0xABCD''"
    using window_values_big_endian[OF h1 h2] unfolding v sp fmt_offset_samples
    by (elim exE conjE) (rule exI, intro conjI, assumption+)
  with h1 h2 show ?thesis by (intro conjI)
qed


end
